theory Spec2Isabelle
  imports Main
begin

section \<open>Strings of the query language\<close>

text \<open>
  A JavaScript string is a sequence of UTF-16 code units. The model takes the code units
  below 256, which \<^typ>\<open>char\<close> holds. Of the characters that the regular-expression
  class \<^verbatim>\<open>\s\<close> and \<^verbatim>\<open>String.prototype.trim\<close> treat as white space, those below 256 are
  tab, line feed, vertical tab, form feed, carriage return, space and no-break space.
\<close>

definition is_space :: "char \<Rightarrow> bool" where
  "is_space c \<longleftrightarrow>
     c \<in> {CHR 0x09, CHR 0x0A, CHR 0x0B, CHR 0x0C, CHR 0x0D, CHR 0x20, CHR 0xA0}"

text \<open>
  Case folding of the \<^verbatim>\<open>i\<close> flag. Every letter of the pattern \<^verbatim>\<open>similarTo:\<close> is an ASCII
  letter, and without the \<^verbatim>\<open>u\<close> flag a code unit above 127 never folds to an ASCII one,
  so folding the ASCII letters decides every comparison the pattern makes.
\<close>

definition canonicalize :: "char \<Rightarrow> char" where
  "canonicalize c =
     (case map_of (zip ''abcdefghijklmnopqrstuvwxyz'' ''ABCDEFGHIJKLMNOPQRSTUVWXYZ'') c of
        Some u \<Rightarrow> u
      | None \<Rightarrow> c)"

definition equal_ignoring_case :: "string \<Rightarrow> string \<Rightarrow> bool" where
  "equal_ignoring_case a b \<longleftrightarrow> map canonicalize a = map canonicalize b"

section \<open>parseQuery\<close>

record SmartSearchQuery =
  similarToAssetIds :: "string list"
  searchText :: string

text \<open>
  \<^verbatim>\<open>/similarTo:([^\s]+)/gi\<close> tried at the head of a string: the ten characters of
  \<^verbatim>\<open>similarTo:\<close> in any letter case, then the longest run of characters that are not
  white space, which must not be empty. The result is \<^verbatim>\<open>(match[0], match[1])\<close>.
\<close>

definition similarToRegex_match_at :: "string \<Rightarrow> (string \<times> string) option" where
  "similarToRegex_match_at s =
     (if equal_ignoring_case (take 10 s) ''similarTo:'' then
        (let tok = takeWhile (\<lambda>c. \<not> is_space c) (drop 10 s)
         in if tok = [] then None else Some (take 10 s @ tok, tok))
      else None)"

text \<open>
  \<^verbatim>\<open>similarToRegex.exec(smartSearchQuery)\<close>. The regular expression is global, so each
  call searches from \<^verbatim>\<open>lastIndex\<close>; the argument here is the part of the query from
  \<^verbatim>\<open>lastIndex\<close> on, and the third component of the result is the part after the match,
  where the next call starts. \<^const>\<open>None\<close> is JavaScript's \<^verbatim>\<open>null\<close>.
\<close>

fun similarToRegex_exec :: "string \<Rightarrow> (string \<times> string \<times> string) option" where
  "similarToRegex_exec [] = None"
| "similarToRegex_exec (c # cs) =
     (case similarToRegex_match_at (c # cs) of
        Some (m0, m1) \<Rightarrow> Some (m0, m1, drop (length m0) (c # cs))
      | None \<Rightarrow> similarToRegex_exec cs)"

text \<open>
  \<^verbatim>\<open>searchText.replace(match[0], '')\<close> with a string pattern: the first occurrence of
  the pattern is removed, and a text without the pattern is returned as it is.
\<close>

fun replace_first :: "string \<Rightarrow> string \<Rightarrow> string" where
  "replace_first pat [] = []"
| "replace_first pat (c # cs) =
     (if take (length pat) (c # cs) = pat then drop (length pat) (c # cs)
      else c # replace_first pat cs)"

text \<open>
  The loop of \<^verbatim>\<open>parseQuery\<close>: \<^verbatim>\<open>exec\<close> runs over the query as given, each \<^verbatim>\<open>match[1]\<close>
  is pushed on \<^verbatim>\<open>similarToAssetIds\<close> and each \<^verbatim>\<open>match[0]\<close> is removed from the
  search text built so far.
\<close>

function parseQuery_loop :: "string \<Rightarrow> string list \<Rightarrow> string \<Rightarrow> string list \<times> string" where
  "parseQuery_loop rest ids txt =
     (case similarToRegex_exec rest of
        None \<Rightarrow> (ids, txt)
      | Some (m0, m1, rest') \<Rightarrow> parseQuery_loop rest' (ids @ [m1]) (replace_first m0 txt))"
  by pat_completeness auto
termination
proof (relation "measure (\<lambda>(rest, ids, txt). length rest)")
  show "wf (measure (\<lambda>(rest, ids, txt). length rest))"
    by simp
next
  fix rest :: string and ids :: "string list" and acc :: string
    and x2 :: "string \<times> string \<times> string" and m0 :: string
    and y :: "string \<times> string" and m1 rest' :: string
  assume x2: "similarToRegex_exec rest = Some x2" "(m0, y) = x2" "(m1, rest') = y"
  have at_len: "10 < length a \<and> length a \<le> length s"
    if h: "similarToRegex_match_at s = Some (a, b)" for s a b
  proof -
    have "equal_ignoring_case (take 10 s) ''similarTo:''"
      using h by (simp add: similarToRegex_match_at_def split: if_splits)
    then have "length (map canonicalize (take 10 s)) = length (map canonicalize ''similarTo:'')"
      unfolding equal_ignoring_case_def by (rule arg_cong)
    then have l: "10 \<le> length s" by simp
    have m: "a = take 10 s @ b" "b = takeWhile (\<lambda>c. \<not> is_space c) (drop 10 s)" "b \<noteq> []"
      using h by (auto simp add: similarToRegex_match_at_def Let_def split: if_splits)
    have "length b \<le> length (drop 10 s)"
      unfolding m(2) by (rule length_takeWhile_le)
    with l m show ?thesis by (cases b) auto
  qed
  have shorter: "length r < length s"
    if "similarToRegex_exec s = Some (a, b, r)" for s a b r
    using that
  proof (induction s)
    case Nil
    then show ?case by simp
  next
    case (Cons c cs)
    show ?case
    proof (cases "similarToRegex_match_at (c # cs)")
      case None
      with Cons show ?thesis by auto
    next
      case (Some m)
      obtain a' b' where m: "m = (a', b')" by (cases m)
      from at_len [of "c # cs" a' b'] Some m
      have "10 < length a'" "length a' \<le> length (c # cs)" by auto
      moreover from Cons.prems Some m have "r = drop (length a') (c # cs)" by auto
      ultimately show ?thesis by simp
    qed
  qed
  from x2 have "similarToRegex_exec rest = Some (m0, m1, rest')" by auto
  from shorter [OF this]
  show "((rest', ids @ [m1], replace_first m0 acc), (rest, ids, acc))
          \<in> measure (\<lambda>(rest, ids, txt). length rest)"
    by simp
qed

text \<open>
  \<^verbatim>\<open>.replace(/,\s*$/, '')\<close>: the leftmost comma that only white space follows up to the
  end of the text is removed together with that white space.
\<close>

fun replace_comma_space_end :: "string \<Rightarrow> string" where
  "replace_comma_space_end [] = []"
| "replace_comma_space_end (c # cs) =
     (if c = CHR '','' \<and> list_all is_space cs then [] else c # replace_comma_space_end cs)"

text \<open>
  \<^verbatim>\<open>.replace(/\s*,$/, '')\<close>: the leftmost position from which white space and then one
  comma reach the end of the text; everything from there on is removed.
\<close>

fun replace_space_comma_end :: "string \<Rightarrow> string" where
  "replace_space_comma_end [] = []"
| "replace_space_comma_end (c # cs) =
     (if dropWhile is_space (c # cs) = '','' then [] else c # replace_space_comma_end cs)"

text \<open>
  \<^verbatim>\<open>.replaceAll(/\s{2,}/g, ' ')\<close>: every maximal run of two or more white-space
  characters becomes one space; a single white-space character stays as it is.
\<close>

function replaceAll_spaces :: "string \<Rightarrow> string" where
  "replaceAll_spaces [] = []"
| "replaceAll_spaces [c] = [c]"
| "replaceAll_spaces (c # d # cs) =
     (if is_space c \<and> is_space d then CHR '' '' # replaceAll_spaces (dropWhile is_space cs)
      else c # replaceAll_spaces (d # cs))"
  by pat_completeness auto
termination
  by (relation "measure length") (auto simp add: less_Suc_eq_le le_SucI length_dropWhile_le)

text \<open>\<^verbatim>\<open>.trim()\<close>: white space is removed from both ends.\<close>

definition trim :: "string \<Rightarrow> string" where
  "trim s = rev (dropWhile is_space (rev (dropWhile is_space s)))"

text \<open>
  The chain of lines 129 to 133 (``trim any extra whitespace and commas'').
\<close>

definition trim_extra :: "string \<Rightarrow> string" where
  "trim_extra txt =
     trim (replaceAll_spaces (replace_space_comma_end (replace_comma_space_end txt)))"

definition parseQuery :: "string \<Rightarrow> SmartSearchQuery" where
  "parseQuery smartSearchQuery =
     (case parseQuery_loop smartSearchQuery [] smartSearchQuery of
        (ids, txt) \<Rightarrow> \<lparr>similarToAssetIds = ids, searchText = trim_extra txt\<rparr>)"

section \<open>The collaborators of searchSmart\<close>

text \<open>
  Modelled from the spec: the enumeration \<^verbatim>\<open>AssetVisibility\<close> is declared in
  \<^verbatim>\<open>src/enum\<close>, which is not among the sources. The service names
  \<^verbatim>\<open>AssetVisibility.LOCKED\<close> only, the restricted category of the spec; the other
  members are kept under one constructor.
\<close>

datatype AssetVisibility = LOCKED | OTHER string

text \<open>
  Modelled from the spec: \<^verbatim>\<open>AuthDto\<close> is declared in \<^verbatim>\<open>src/dtos/auth.dto\<close>, which is not
  among the sources. The service reads \<^verbatim>\<open>auth.user.id\<close>; the elevated-permission grant
  is the yes/no answer of the access-control collaborator.
\<close>

record AuthDto =
  user_id :: string
  elevated :: bool

text \<open>
  The exceptions of the service: the one \<^verbatim>\<open>requireElevatedPermission\<close> throws, and
  \<^verbatim>\<open>BadRequestException\<close> with its message.
\<close>

datatype error = InsufficientPermission | BadRequestException string

abbreviation FeatureDisabled :: error where
  "FeatureDisabled \<equiv> BadRequestException ''Smart search is not enabled''"

abbreviation QueryNotUnderstood :: error where
  "QueryNotUnderstood \<equiv> BadRequestException ''Search term is not understood''"

text \<open>
  Modelled from the spec: \<^verbatim>\<open>requireElevatedPermission\<close> is imported from
  \<^verbatim>\<open>src/utils/access\<close>, which is not among the sources. The spec gives it as
  \<^verbatim>\<open>requireElevatedPermission(auth) -> void | fails\<close>, failing with
  \<^verbatim>\<open>InsufficientPermission\<close> when the grant is absent.
\<close>

definition requireElevatedPermission :: "AuthDto \<Rightarrow> error + unit" where
  "requireElevatedPermission auth =
     (if elevated auth then Inr () else Inl InsufficientPermission)"

text \<open>
  Modelled from the spec: the type of the system configuration is not among the
  sources. The service reads \<^verbatim>\<open>machineLearning.urls\<close> and
  \<^verbatim>\<open>machineLearning.clip.modelName\<close>; the spec gives the configuration a field
  \<^verbatim>\<open>smartSearchEnabled: bool\<close>.
\<close>

record MachineLearningConfig =
  smartSearchEnabled :: bool
  urls :: "string list"
  clip_modelName :: string

text \<open>
  Modelled from the spec: \<^verbatim>\<open>isSmartSearchEnabled\<close> is imported from \<^verbatim>\<open>src/utils/misc\<close>,
  which is not among the sources. It reads the field \<^verbatim>\<open>smartSearchEnabled\<close> of the
  configuration.
\<close>

definition isSmartSearchEnabled :: "MachineLearningConfig \<Rightarrow> bool" where
  "isSmartSearchEnabled machineLearning = smartSearchEnabled machineLearning"

text \<open>
  Modelled from the spec: \<^verbatim>\<open>SmartSearchDto\<close> is declared in \<^verbatim>\<open>src/dtos/search.dto\<close>,
  which is not among the sources. The service reads the query text, the language tag,
  the visibility filter and the optional page and size (\<^const>\<open>None\<close> is
  \<^verbatim>\<open>undefined\<close>).
\<close>

record SmartSearchDto =
  query :: string
  language :: string
  page :: "int option"
  size_dto :: "int option"
  visibility :: "AssetVisibility option"

text \<open>
  \<^verbatim>\<open>getUserIdsToSearch\<close> returns a promise. Line 165 passes \<^verbatim>\<open>await userIds\<close> to the
  repository, lines 202 and 208 pass \<^verbatim>\<open>userIds\<close>, the promise itself.
\<close>

datatype userIds_value = Ids "string list" | PromiseOf "string list"

text \<open>
  The calls that leave the service, with their arguments, in the order they are made.
  An embedding is a string, as in \<^verbatim>\<open>LRUMap<string, string>\<close>; the embedding handed
  to the index is \<^const>\<open>None\<close> when it is \<^verbatim>\<open>undefined\<close>.
\<close>

datatype call =
    Call_getConfig
  | Call_getMyPartnerIds string
  | Call_encodeText "string list" string string string
  | Call_getAssetEmbeddings "string list"
  | Call_averageEmbeddings "string list" "string list"
  | Call_searchSmart int int SmartSearchDto userIds_value "string option"

text \<open>
  What the collaborators answer, as parameters of the service: the configuration, the
  directory of partners (\<^verbatim>\<open>getMyPartnerIds\<close> of \<^verbatim>\<open>src/utils/asset.util\<close>), the encoder,
  the storage of embeddings, the index and the mapping of assets. They are taken to
  return; a collaborator that throws ends the request with its own exception.
\<close>

record Repositories =
  getConfig :: MachineLearningConfig
  getMyPartnerIds :: "string \<Rightarrow> string list"
  encodeText :: "string list \<Rightarrow> string \<Rightarrow> string \<Rightarrow> string \<Rightarrow> string"
  getAssetEmbeddings :: "string list \<Rightarrow> string list"
  averageEmbeddings :: "string list \<Rightarrow> string list \<Rightarrow> string"
  searchSmart_repository ::
    "int \<Rightarrow> int \<Rightarrow> SmartSearchDto \<Rightarrow> userIds_value \<Rightarrow> string option \<Rightarrow> string list \<times> bool"
  mapAsset :: "AuthDto \<Rightarrow> string \<Rightarrow> string"

section \<open>The embedding cache\<close>

text \<open>
  \<^verbatim>\<open>new LRUMap<string, string>(100)\<close> of the library mnemonist: at most 100 entries,
  kept here most recently used first. \<^verbatim>\<open>get\<close> of a key that is present moves it to the
  front; \<^verbatim>\<open>set\<close> puts the entry at the front and, when a new key finds the map full,
  drops the least recently used entry.
\<close>

type_synonym lru = "(string \<times> string) list"

definition lru_capacity :: nat where
  "lru_capacity = 100"

definition lru_get :: "string \<Rightarrow> lru \<Rightarrow> string option \<times> lru" where
  "lru_get k m =
     (case map_of m k of
        None \<Rightarrow> (None, m)
      | Some v \<Rightarrow> (Some v, (k, v) # filter (\<lambda>e. fst e \<noteq> k) m))"

definition lru_set :: "string \<Rightarrow> string \<Rightarrow> lru \<Rightarrow> lru" where
  "lru_set k v m =
     (if map_of m k \<noteq> None then (k, v) # filter (\<lambda>e. fst e \<noteq> k) m
      else if length m < lru_capacity then (k, v) # m
      else (k, v) # butlast m)"

section \<open>searchSmart\<close>

text \<open>
  The state of the service: the cache, which lives as long as the service, and the log
  of the calls made to the collaborators.
\<close>

record service =
  embeddingCache :: lru
  calls :: "call list"

definition called :: "call \<Rightarrow> service \<Rightarrow> service" where
  "called c st = st\<lparr>calls := calls st @ [c]\<rparr>"

text \<open>JavaScript's truthiness: an empty string is falsy, every array is truthy.\<close>

definition truthy_string :: "string \<Rightarrow> bool" where
  "truthy_string s \<longleftrightarrow> s \<noteq> []"

definition truthy_array :: "'a list \<Rightarrow> bool" where
  "truthy_array xs \<longleftrightarrow> True"

text \<open>\<^verbatim>\<open>searchEmbeddings[0]\<close>: \<^verbatim>\<open>undefined\<close> on an empty array.\<close>

definition first_embedding :: "string list \<Rightarrow> string option" where
  "first_embedding xs = (case xs of [] \<Rightarrow> None | x # _ \<Rightarrow> Some x)"

definition getUserIdsToSearch :: "Repositories \<Rightarrow> AuthDto \<Rightarrow> string list" where
  "getUserIdsToSearch repo auth = user_id auth # getMyPartnerIds repo (user_id auth)"

text \<open>
  The \<^verbatim>\<open>assets\<close> part of the response; the \<^verbatim>\<open>albums\<close> part is the same empty
  placeholder in every response. \<^verbatim>\<open>nextPage\<close> is the number whose decimal rendering
  the source returns, \<^const>\<open>None\<close> for \<^verbatim>\<open>null\<close>.
\<close>

record SearchResponseDto =
  total :: nat
  count_dto :: nat
  items :: "string list"
  nextPage :: "int option"

definition mapResponse ::
  "Repositories \<Rightarrow> AuthDto \<Rightarrow> string list \<Rightarrow> int option \<Rightarrow> SearchResponseDto" where
  "mapResponse repo auth assets next =
     \<lparr>total = length assets, count_dto = length assets,
      items = map (mapAsset repo auth) assets, nextPage = next\<rparr>"

text \<open>
  Line 152: the key of the embedding cache is the concatenation of the model name, the
  query as sent and the language.
\<close>

definition cache_key :: "string \<Rightarrow> string \<Rightarrow> string \<Rightarrow> string" where
  "cache_key modelName q lang = modelName @ q @ lang"

text \<open>
  Lines 153 to 160: the embedding of the query as sent, from the cache or from the
  encoder. A cached embedding that is falsy counts as a miss.
\<close>

definition cached_embedding ::
  "Repositories \<Rightarrow> MachineLearningConfig \<Rightarrow> SmartSearchDto \<Rightarrow> service \<Rightarrow> string \<times> service" where
  "cached_embedding repo machineLearning dto st =
     (let k = cache_key (clip_modelName machineLearning) (query dto) (language dto);
          (cached, m) = lru_get k (embeddingCache st);
          st1 = st\<lparr>embeddingCache := m\<rparr>;
          encoded = encodeText repo (urls machineLearning) (query dto)
                      (clip_modelName machineLearning) (language dto);
          miss = (encoded,
                  (called (Call_encodeText (urls machineLearning) (query dto)
                             (clip_modelName machineLearning) (language dto)) st1)
                  \<lparr>embeddingCache := lru_set k encoded m\<rparr>)
      in case cached of
           None \<Rightarrow> miss
         | Some e \<Rightarrow> if truthy_string e then (e, st1) else miss)"

text \<open>
  Lines 171 to 212: the query is parsed, the embeddings of the referenced assets are
  fetched, the search text is encoded, and the index is searched with the one embedding
  or with the average of several. The log line of line 196 is left out.
\<close>

definition search_breakdown ::
  "Repositories \<Rightarrow> MachineLearningConfig \<Rightarrow> AuthDto \<Rightarrow> SmartSearchDto \<Rightarrow> int \<Rightarrow> int \<Rightarrow>
   string list \<Rightarrow> service \<Rightarrow> (error + SearchResponseDto) \<times> service" where
  "search_breakdown repo machineLearning auth dto pg sz userIds st =
     (let searchBreakdown = parseQuery (query dto)
      in if \<not> truthy_string (searchText searchBreakdown)
            \<and> \<not> truthy_array (similarToAssetIds searchBreakdown)
         then (Inl (BadRequestException ''Search term is not understood''), st)
         else
          (let (fetched, st1) =
                 (if truthy_array (similarToAssetIds searchBreakdown)
                  then (getAssetEmbeddings repo (similarToAssetIds searchBreakdown),
                        called (Call_getAssetEmbeddings (similarToAssetIds searchBreakdown)) st)
                  else ([], st));
               (searchEmbeddings, st2) =
                 (if truthy_string (searchText searchBreakdown)
                  then (fetched @ [encodeText repo (urls machineLearning) (searchText searchBreakdown)
                                     (clip_modelName machineLearning) (language dto)],
                        called (Call_encodeText (urls machineLearning) (searchText searchBreakdown)
                                  (clip_modelName machineLearning) (language dto)) st1)
                  else (fetched, st1));
               (embedding, st3) =
                 (if 1 < length searchEmbeddings
                  then (Some (averageEmbeddings repo (urls machineLearning) searchEmbeddings),
                        called (Call_averageEmbeddings (urls machineLearning) searchEmbeddings) st2)
                  else (first_embedding searchEmbeddings, st2));
               st4 = called (Call_searchSmart pg sz dto (PromiseOf userIds) embedding) st3;
               (found, hasNextPage) =
                 searchSmart_repository repo pg sz dto (PromiseOf userIds) embedding
           in (Inr (mapResponse repo auth found (if hasNextPage then Some (pg + 1) else None)),
               st4)))"

text \<open>
  The body of \<^verbatim>\<open>searchSmart\<close> holds two searches one after the other: lines 151 to 166
  look the query up in the cache and search the index, and lines 168 to 212 parse the
  query and search the index again. Line 168 declares \<^verbatim>\<open>items\<close> and \<^verbatim>\<open>hasNextPage\<close> a
  second time. The model reads the statements in the order they are written; the second
  declarations take the place of the first, so the response is built from the second
  search.
\<close>

definition searchSmart ::
  "Repositories \<Rightarrow> service \<Rightarrow> AuthDto \<Rightarrow> SmartSearchDto \<Rightarrow> (error + SearchResponseDto) \<times> service" where
  "searchSmart repo st auth dto =
     (case (if visibility dto = Some LOCKED then requireElevatedPermission auth else Inr ()) of
        Inl e \<Rightarrow> (Inl e, st)
      | Inr _ \<Rightarrow>
         (let st1 = called Call_getConfig st;
              machineLearning = getConfig repo
          in if \<not> isSmartSearchEnabled machineLearning
             then (Inl (BadRequestException ''Smart search is not enabled''), st1)
             else
              (let st2 = called (Call_getMyPartnerIds (user_id auth)) st1;
                   userIds = getUserIdsToSearch repo auth;
                   (embedding, st3) = cached_embedding repo machineLearning dto st2;
                   pg = (case page dto of None \<Rightarrow> 1 | Some p \<Rightarrow> p);
                   sz = (case size_dto dto of None \<Rightarrow> 100 | Some n \<Rightarrow> if n = 0 then 100 else n);
                   st4 = called (Call_searchSmart pg sz dto (Ids userIds) (Some embedding)) st3
               in search_breakdown repo machineLearning auth dto pg sz userIds st4)))"

section \<open>References and remaining text, as the specification describes them\<close>

text \<open>
  A reference starts at the head of a string when the string begins with
  \<^verbatim>\<open>similarTo:\<close> in any letter case and a character that is not white space follows.
\<close>

definition reference_at :: "string \<Rightarrow> bool" where
  "reference_at s \<longleftrightarrow>
     equal_ignoring_case (take 10 s) ''similarTo:''
     \<and> (case drop 10 s of [] \<Rightarrow> False | c # _ \<Rightarrow> \<not> is_space c)"

text \<open>
  A query read from left to right as a sequence of segments: a reference, with the
  letters of \<^verbatim>\<open>similarTo:\<close> as written and its token, the longest run of characters
  that are not white space; or one character of text that belongs to no reference.
  The search for the next reference goes on after the token, so references do not
  overlap.
\<close>

datatype segment = Text char | Reference string string

function segments :: "string \<Rightarrow> segment list" where
  "segments [] = []"
| "segments (c # cs) =
     (if reference_at (c # cs)
      then Reference (take 10 (c # cs)) (takeWhile (\<lambda>x. \<not> is_space x) (drop 10 (c # cs)))
             # segments (dropWhile (\<lambda>x. \<not> is_space x) (drop 10 (c # cs)))
      else Text c # segments cs)"
  by pat_completeness auto
termination
proof (relation "measure length")
  show "wf (measure length)"
    by simp
next
  fix c :: char and cs :: string
  have "length (dropWhile (\<lambda>x. \<not> is_space x) (drop 9 cs)) \<le> length (drop 9 cs)"
    by (rule length_dropWhile_le)
  then show "(dropWhile (\<lambda>x. \<not> is_space x) (drop 10 (c # cs)), c # cs) \<in> measure length"
    by simp
next
  fix c :: char and cs :: string
  show "(cs, c # cs) \<in> measure length"
    by simp
qed

fun written :: "segment list \<Rightarrow> string" where
  "written [] = []"
| "written (Text c # gs) = c # written gs"
| "written (Reference h t # gs) = h @ t @ written gs"

fun reference_tokens :: "segment list \<Rightarrow> string list" where
  "reference_tokens [] = []"
| "reference_tokens (Text c # gs) = reference_tokens gs"
| "reference_tokens (Reference h t # gs) = t # reference_tokens gs"

fun remaining_text :: "segment list \<Rightarrow> string" where
  "remaining_text [] = []"
| "remaining_text (Text c # gs) = c # remaining_text gs"
| "remaining_text (Reference h t # gs) = remaining_text gs"

text \<open>A string holds a reference when a reference starts at one of its positions.\<close>

fun contains_reference :: "string \<Rightarrow> bool" where
  "contains_reference [] = False"
| "contains_reference (c # cs) = (reference_at (c # cs) \<or> contains_reference cs)"

text \<open>
  \<open>free_prefix a b\<close>: in the string \<open>a @ b\<close> no reference starts at a position of \<open>a\<close>.
\<close>

fun free_prefix :: "string \<Rightarrow> string \<Rightarrow> bool" where
  "free_prefix [] b = True"
| "free_prefix (c # cs) b = (\<not> reference_at (c # cs @ b) \<and> free_prefix cs b)"

section \<open>Clean text\<close>

text \<open>
  A text is trimmed when it neither starts nor ends with white space; it has a double
  space when two white-space characters stand next to each other.
\<close>

definition trimmed :: "string \<Rightarrow> bool" where
  "trimmed s \<longleftrightarrow>
     (case s of [] \<Rightarrow> True | c # cs \<Rightarrow> \<not> is_space c \<and> \<not> is_space (last (c # cs)))"

fun double_space :: "string \<Rightarrow> bool" where
  "double_space (c # d # cs) = ((is_space c \<and> is_space d) \<or> double_space (d # cs))"
| "double_space cs = False"

definition trailing_comma :: "string \<Rightarrow> bool" where
  "trailing_comma s \<longleftrightarrow> s \<noteq> [] \<and> last s = CHR '',''"

text \<open>The characters of a text that are not white space, in their order.\<close>

definition non_space :: "string \<Rightarrow> string" where
  "non_space s = filter (\<lambda>c. \<not> is_space c) s"

text \<open>
  The post-processing of the remaining text, step by step and by what each step removes
  rather than by how a regular expression finds it. First the text without the white
  space at its end.
\<close>

definition without_trailing_space :: "string \<Rightarrow> string" where
  "without_trailing_space t = rev (dropWhile is_space (rev t))"

text \<open>
  The first step: when only white space follows the last comma, that comma goes, with the
  white space after it.
\<close>

definition strip_last_comma :: "string \<Rightarrow> string" where
  "strip_last_comma t =
     (if trailing_comma (without_trailing_space t) then butlast (without_trailing_space t)
      else t)"

text \<open>
  The second step: when the text ends with a comma, that comma goes, with the white
  space before it.
\<close>

definition strip_end_comma :: "string \<Rightarrow> string" where
  "strip_end_comma t =
     (if trailing_comma t then without_trailing_space (butlast t) else t)"

text \<open>
  The third step works on the runs of a text: the longest stretches of white space and
  the longest stretches of other characters, in their order. A run of two or more
  white-space characters becomes one space; every other run stays as it is, a single
  white-space character too.
\<close>

fun runs :: "string \<Rightarrow> string list" where
  "runs [] = []"
| "runs (c # cs) =
     (case runs cs of
        [] \<Rightarrow> [[c]]
      | r # rs \<Rightarrow> if is_space c = is_space (hd r) then (c # r) # rs else [c] # r # rs)"

definition collapse_run :: "string \<Rightarrow> string" where
  "collapse_run r = (if is_space (hd r) \<and> 2 \<le> length r then '' '' else r)"

definition collapse_runs :: "string \<Rightarrow> string" where
  "collapse_runs t = concat (map collapse_run (runs t))"

section \<open>An example deployment\<close>

text \<open>
  Collaborators with fixed answers, a service that has just started and a request, for
  evaluating the service on concrete inputs.
\<close>

definition example_repositories :: Repositories where
  "example_repositories =
     \<lparr>getConfig = \<lparr>smartSearchEnabled = True, urls = [''ml''], clip_modelName = ''clip''\<rparr>,
      getMyPartnerIds = (\<lambda>u. [''p1'']),
      encodeText = (\<lambda>us t m l. ''E:'' @ t),
      getAssetEmbeddings = map (\<lambda>i. ''A:'' @ i),
      averageEmbeddings = (\<lambda>us es. ''avg''),
      searchSmart_repository = (\<lambda>p s d u e. ([''a1''], False)),
      mapAsset = (\<lambda>a x. x)\<rparr>"

definition new_service :: service where
  "new_service = \<lparr>embeddingCache = [], calls = []\<rparr>"

definition example_dto :: "string \<Rightarrow> SmartSearchDto" where
  "example_dto q =
     \<lparr>query = q, language = ''en'', page = None, size_dto = None, visibility = None\<rparr>"

definition example_auth :: AuthDto where
  "example_auth = \<lparr>user_id = ''u1'', elevated = False\<rparr>"

text \<open>
  A deployment whose configuration names the model \<open>m\<close> and whose encoder answers with
  the model, the language and the text, so that the embeddings of two models or of two
  languages can be told apart; and a request in a given language.
\<close>

definition model_repositories :: "string \<Rightarrow> Repositories" where
  "model_repositories m =
     example_repositories
       \<lparr>getConfig := \<lparr>smartSearchEnabled = True, urls = [''ml''], clip_modelName = m\<rparr>,
        encodeText := (\<lambda>us t m l. m @ ''/'' @ l @ '':'' @ t)\<rparr>"

definition language_dto :: "string \<Rightarrow> string \<Rightarrow> SmartSearchDto" where
  "language_dto q l = (example_dto q)\<lparr>language := l\<rparr>"

fun is_encodeText :: "call \<Rightarrow> bool" where
  "is_encodeText (Call_encodeText us t m l) = True"
| "is_encodeText c = False"

fun is_getAssetEmbeddings :: "call \<Rightarrow> bool" where
  "is_getAssetEmbeddings (Call_getAssetEmbeddings ids) = True"
| "is_getAssetEmbeddings c = False"

fun is_searchSmart :: "call \<Rightarrow> bool" where
  "is_searchSmart (Call_searchSmart p s d u e) = True"
| "is_searchSmart c = False"

section \<open>Evaluation on concrete inputs\<close>

text \<open>
  The closed statements below are evaluated with the code equations of the definitions.
\<close>

section \<open>The checks before the search\<close>

text \<open>
  C8. A request for locked assets whose auth lacks the elevated-permission grant fails
  with \<^const>\<open>InsufficientPermission\<close>, and the service is left as it was: no call to a
  collaborator has been made and the cache has not been touched.
\<close>

theorem searchSmart_locked_without_grant:
  assumes "visibility dto = Some LOCKED" and "\<not> elevated auth"
  shows "searchSmart repo st auth dto = (Inl InsufficientPermission, st)"
  using assms by (simp add: searchSmart_def requireElevatedPermission_def)

theorem searchSmart_locked_without_grant_witness:
  "visibility ((example_dto ''sunset'')\<lparr>visibility := Some LOCKED\<rparr>) = Some LOCKED
   \<and> \<not> elevated example_auth
   \<and> searchSmart example_repositories new_service example_auth
        ((example_dto ''sunset'')\<lparr>visibility := Some LOCKED\<rparr>)
      = (Inl InsufficientPermission, new_service)"
  using searchSmart_locked_without_grant
    [of "(example_dto ''sunset'')\<lparr>visibility := Some LOCKED\<rparr>" example_auth
        example_repositories new_service]
  by (simp add: example_dto_def example_auth_def)

section \<open>The empty query\<close>

text \<open>
  The test of line 174 negates an array, and an array is truthy: the exception for a
  query that is not understood is never thrown.
\<close>

lemma searchSmart_never_QueryNotUnderstood:
  "fst (searchSmart repo st auth dto) \<noteq> Inl QueryNotUnderstood"
  by (auto simp add: searchSmart_def search_breakdown_def Let_def truthy_array_def
        requireElevatedPermission_def split: sum.splits prod.splits if_splits)

text \<open>
  C1. The empty query parses to an empty search text and no references. The claim has
  the request fail with \<^const>\<open>QueryNotUnderstood\<close> before any embedding is fetched or
  any text is encoded; the service instead encodes the empty text, fetches the
  embeddings of no assets, searches the index twice, the second time with no embedding,
  and answers.
\<close>

theorem searchSmart_empty_query:
  "parseQuery '''' = \<lparr>similarToAssetIds = [], searchText = ''''\<rparr>
   \<and> searchSmart example_repositories new_service example_auth (example_dto '''') =
       (Inr \<lparr>total = 1, count_dto = 1, items = [''a1''], nextPage = None\<rparr>,
        \<lparr>embeddingCache = [(''clipen'', ''E:'')],
         calls =
           [Call_getConfig, Call_getMyPartnerIds ''u1'',
            Call_encodeText [''ml''] '''' ''clip'' ''en'',
            Call_searchSmart 1 100 (example_dto '''') (Ids [''u1'', ''p1'']) (Some ''E:''),
            Call_getAssetEmbeddings [],
            Call_searchSmart 1 100 (example_dto '''') (PromiseOf [''u1'', ''p1'']) None]\<rparr>)"
  by code_simp

section \<open>Fetching the embeddings of the referenced assets\<close>

text \<open>
  A request that gets as far as line 178 fetches the embeddings once, in one call for
  the whole list of references, whatever the list holds.
\<close>

lemma search_breakdown_fetches_once:
  "filter is_getAssetEmbeddings
     (calls (snd (search_breakdown repo machineLearning auth dto pg sz userIds st)))
   = filter is_getAssetEmbeddings (calls st)
       @ [Call_getAssetEmbeddings (similarToAssetIds (parseQuery (query dto)))]"
  by (simp add: search_breakdown_def Let_def truthy_array_def called_def split_beta)

text \<open>
  C2. The test of line 178 is on the array itself, which is truthy also when it is
  empty: for a query without references the embeddings of the empty list of assets are
  fetched, where the claim has no fetch.
\<close>

theorem searchSmart_fetches_for_no_references:
  "similarToAssetIds (parseQuery ''sunset'') = []
   \<and> filter is_getAssetEmbeddings
        (calls (snd (searchSmart example_repositories new_service example_auth
                       (example_dto ''sunset''))))
      = [Call_getAssetEmbeddings []]"
  by code_simp

section \<open>Encoding the search text\<close>

text \<open>
  The lookup of lines 152 to 160 on its own is cache-or-compute: when the encoder
  returns an embedding that is not the empty string, a second lookup for the same
  request finds it in the cache, returns it and does not call the encoder.
\<close>

lemma cached_embedding_miss_then_hit:
  assumes "map_of (embeddingCache st) (cache_key (clip_modelName ml) (query dto) (language dto)) = None"
    and "encodeText repo (urls ml) (query dto) (clip_modelName ml) (language dto) \<noteq> []"
  shows "fst (cached_embedding repo ml dto (snd (cached_embedding repo ml dto st)))
           = fst (cached_embedding repo ml dto st)
         \<and> calls (snd (cached_embedding repo ml dto (snd (cached_embedding repo ml dto st))))
           = calls (snd (cached_embedding repo ml dto st))"
  using assms
  by (simp add: cached_embedding_def Let_def lru_get_def lru_set_def called_def truthy_string_def)

text \<open>
  Lines 184 to 194 call the encoder for every search text that is not empty, whatever
  the cache holds, and leave the cache as it was.
\<close>

lemma search_breakdown_encodes:
  assumes "searchText (parseQuery (query dto)) \<noteq> []"
  shows "filter is_encodeText
           (calls (snd (search_breakdown repo machineLearning auth dto pg sz userIds st)))
         = filter is_encodeText (calls st)
             @ [Call_encodeText (urls machineLearning) (searchText (parseQuery (query dto)))
                  (clip_modelName machineLearning) (language dto)]"
  using assms
  by (simp add: search_breakdown_def Let_def truthy_array_def truthy_string_def called_def
        split_beta)

lemma search_breakdown_cache:
  "embeddingCache (snd (search_breakdown repo machineLearning auth dto pg sz userIds st))
     = embeddingCache st"
  by (simp add: search_breakdown_def Let_def truthy_array_def truthy_string_def called_def
        split_beta)

text \<open>
  C3. Two requests in a row with the same model, text and language call the text
  encoder three times: once for the cache of lines 152 to 160, on the first request,
  and once per request on lines 184 to 194, which do not consult the cache. The claim
  allows one call.
\<close>

theorem searchSmart_encodes_again:
  "filter is_encodeText
     (calls (snd (searchSmart example_repositories
                    (snd (searchSmart example_repositories new_service example_auth
                            (example_dto ''sunset'')))
                    example_auth (example_dto ''sunset''))))
   = [Call_encodeText [''ml''] ''sunset'' ''clip'' ''en'',
      Call_encodeText [''ml''] ''sunset'' ''clip'' ''en'',
      Call_encodeText [''ml''] ''sunset'' ''clip'' ''en'']"
  by code_simp

section \<open>The key of the embedding cache\<close>

text \<open>
  Line 152 joins the model name, the query and the language with nothing between them.
  Two keys differ when the models or the languages differ and, besides, the two keys
  differ in length, or the model is the same, or neither model name is the beginning of
  the other.
\<close>

lemma cache_key_distinct:
  assumes "(m1, l1) \<noteq> (m2, l2)"
    and "length m1 + length l1 \<noteq> length m2 + length l2 \<or> m1 = m2
         \<or> (take (length m1) m2 \<noteq> m1 \<and> take (length m2) m1 \<noteq> m2)"
  shows "cache_key m1 q l1 \<noteq> cache_key m2 q l2"
proof
  assume "cache_key m1 q l1 = cache_key m2 q l2"
  then have e: "m1 @ q @ l1 = m2 @ q @ l2" by (simp add: cache_key_def)
  then have "length (m1 @ q @ l1) = length (m2 @ q @ l2)" by (rule arg_cong)
  then have n: "length m1 + length l1 = length m2 + length l2" by simp
  from e assms(1) have m: "m1 \<noteq> m2" by auto
  from e obtain d where "m1 = m2 @ d \<or> m1 @ d = m2"
    unfolding append_eq_append_conv2 by blast
  then have "take (length m2) m1 = m2 \<or> take (length m1) m2 = m1" by auto
  with assms(2) n m show False by blast
qed

lemma cache_key_distinct_models:
  "cache_key ''ViT-B-32__openai'' q ''en'' \<noteq> cache_key ''nllb-clip-large-siglip__v1'' q ''zh-CN''"
  by (rule cache_key_distinct) simp_all

text \<open>
  C4. The keys are not distinct for every two models and languages: the model \<^verbatim>\<open>x\<close>
  with the language \<^verbatim>\<open>aby\<close> and the model \<^verbatim>\<open>xab\<close> with the language \<^verbatim>\<open>y\<close> give the
  text \<^verbatim>\<open>ab\<close> the same key. After a request for the first, a request for the second
  finds the embedding of the first in the cache: the search of line 163 is made with the
  embedding that the model \<^verbatim>\<open>x\<close> gave for the language \<^verbatim>\<open>aby\<close>, and the encoder is not
  asked on line 155. The calls of the first request are the first two of each list.
\<close>

theorem cache_key_collision:
  "(''x'', ''aby'') \<noteq> (''xab'', ''y'')
   \<and> cache_key ''x'' ''ab'' ''aby'' = cache_key ''xab'' ''ab'' ''y''
   \<and> filter is_searchSmart
        (calls (snd (searchSmart (model_repositories ''xab'')
                       (snd (searchSmart (model_repositories ''x'') new_service example_auth
                               (language_dto ''ab'' ''aby'')))
                       example_auth (language_dto ''ab'' ''y''))))
      = [Call_searchSmart 1 100 (language_dto ''ab'' ''aby'') (Ids [''u1'', ''p1''])
           (Some ''x/aby:ab''),
         Call_searchSmart 1 100 (language_dto ''ab'' ''aby'') (PromiseOf [''u1'', ''p1''])
           (Some ''x/aby:ab''),
         Call_searchSmart 1 100 (language_dto ''ab'' ''y'') (Ids [''u1'', ''p1''])
           (Some ''x/aby:ab''),
         Call_searchSmart 1 100 (language_dto ''ab'' ''y'') (PromiseOf [''u1'', ''p1''])
           (Some ''xab/y:ab'')]
   \<and> filter is_encodeText
        (calls (snd (searchSmart (model_repositories ''xab'')
                       (snd (searchSmart (model_repositories ''x'') new_service example_auth
                               (language_dto ''ab'' ''aby'')))
                       example_auth (language_dto ''ab'' ''y''))))
      = [Call_encodeText [''ml''] ''ab'' ''x'' ''aby'',
         Call_encodeText [''ml''] ''ab'' ''x'' ''aby'',
         Call_encodeText [''ml''] ''ab'' ''xab'' ''y'']"
  by code_simp

section \<open>Searching the index\<close>

text \<open>
  Every request that passes the two checks searches the index twice: first with the
  identifiers of the user and the partners, then with the promise of them.
\<close>

lemma cached_embedding_searches:
  "filter is_searchSmart (calls (snd (cached_embedding repo machineLearning dto st)))
     = filter is_searchSmart (calls st)"
  by (simp add: cached_embedding_def Let_def called_def split_beta split: option.splits)

lemma search_breakdown_searches:
  "\<exists>e. filter is_searchSmart
          (calls (snd (search_breakdown repo machineLearning auth dto pg sz userIds st)))
        = filter is_searchSmart (calls st)
            @ [Call_searchSmart pg sz dto (PromiseOf userIds) e]"
  by (simp add: search_breakdown_def Let_def truthy_array_def called_def split_beta)

lemma searchSmart_two_searches:
  assumes "visibility dto = Some LOCKED \<Longrightarrow> elevated auth"
    and "smartSearchEnabled (getConfig repo)"
  shows "\<exists>e1 e2. filter is_searchSmart (calls (snd (searchSmart repo st auth dto)))
        = filter is_searchSmart (calls st)
            @ [Call_searchSmart
                 (case page dto of None \<Rightarrow> 1 | Some p \<Rightarrow> p)
                 (case size_dto dto of None \<Rightarrow> 100 | Some n \<Rightarrow> if n = 0 then 100 else n)
                 dto (Ids (getUserIdsToSearch repo auth)) e1,
               Call_searchSmart
                 (case page dto of None \<Rightarrow> 1 | Some p \<Rightarrow> p)
                 (case size_dto dto of None \<Rightarrow> 100 | Some n \<Rightarrow> if n = 0 then 100 else n)
                 dto (PromiseOf (getUserIdsToSearch repo auth)) e2]"
proof -
  let ?pg = "case page dto of None \<Rightarrow> 1 | Some p \<Rightarrow> p"
  let ?sz = "case size_dto dto of None \<Rightarrow> 100 | Some n \<Rightarrow> if n = 0 then 100 else n"
  let ?u = "getUserIdsToSearch repo auth"
  let ?st2 = "called (Call_getMyPartnerIds (user_id auth)) (called Call_getConfig st)"
  let ?c = "cached_embedding repo (getConfig repo) dto ?st2"
  let ?st4 = "called (Call_searchSmart ?pg ?sz dto (Ids ?u) (Some (fst ?c))) (snd ?c)"
  from assms have r: "searchSmart repo st auth dto
      = search_breakdown repo (getConfig repo) auth dto ?pg ?sz ?u ?st4"
    by (cases "visibility dto = Some LOCKED")
      (simp_all add: searchSmart_def requireElevatedPermission_def isSmartSearchEnabled_def
         Let_def split_beta)
  from search_breakdown_searches [of repo "getConfig repo" auth dto ?pg ?sz ?u ?st4]
  obtain e where e: "filter is_searchSmart (calls (snd (searchSmart repo st auth dto)))
      = filter is_searchSmart (calls ?st4) @ [Call_searchSmart ?pg ?sz dto (PromiseOf ?u) e]"
    unfolding r by blast
  have "filter is_searchSmart (calls ?st4)
      = filter is_searchSmart (calls st) @ [Call_searchSmart ?pg ?sz dto (Ids ?u) (Some (fst ?c))]"
    by (simp add: called_def cached_embedding_searches)
  with e show ?thesis by simp
qed

text \<open>
  C5. A request that passes the checks searches the index twice, on line 163 and on
  line 206 (or 202). Both searches ask for page 1 of size 100 when the request names
  neither; the first is given the user's identifier and the partners', the second the
  promise of them, which was not awaited. The claim has one search.
\<close>

theorem searchSmart_searches_twice:
  "filter is_searchSmart
     (calls (snd (searchSmart example_repositories new_service example_auth
                    (example_dto ''sunset''))))
   = [Call_searchSmart 1 100 (example_dto ''sunset'') (Ids [''u1'', ''p1''])
        (Some ''E:sunset''),
      Call_searchSmart 1 100 (example_dto ''sunset'') (PromiseOf [''u1'', ''p1''])
        (Some ''E:sunset'')]"
  by code_simp

section \<open>Where a reference can start\<close>

text \<open>
  White space never folds to a letter, so the ten characters of \<^verbatim>\<open>similarTo:\<close> and the
  first character of the token are not white space; whether a reference starts at a
  position depends on the eleven characters from there on only.
\<close>

lemma is_space_canonicalize: "is_space x \<Longrightarrow> canonicalize x = x"
  unfolding is_space_def by (elim insertE emptyE; simp add: canonicalize_def)

lemma similarTo_letters_no_space:
  assumes "equal_ignoring_case h ''similarTo:''" and "x \<in> set h"
  shows "\<not> is_space x"
proof
  assume sp: "is_space x"
  from assms(2) have "canonicalize x \<in> set (map canonicalize h)" by simp
  also from assms(1) have "map canonicalize h = map canonicalize ''similarTo:''"
    by (simp only: equal_ignoring_case_def)
  finally have "x \<in> set (map canonicalize ''similarTo:'')"
    using sp by (simp only: is_space_canonicalize)
  then have "x \<in> set ''SIMILARTO:''"
    by (simp add: canonicalize_def)
  with sp show False
    by (auto simp add: is_space_def)
qed

lemma equal_ignoring_case_length:
  "equal_ignoring_case a b \<Longrightarrow> length a = length b"
  unfolding equal_ignoring_case_def by (rule map_eq_imp_length_eq)

lemma reference_at_split:
  assumes "reference_at s"
  obtains h c r where "s = h @ c # r" "length h = 10"
    "equal_ignoring_case h ''similarTo:''" "\<not> is_space c"
proof -
  from assms have a: "equal_ignoring_case (take 10 s) ''similarTo:''"
    and b: "case drop 10 s of [] \<Rightarrow> False | c # _ \<Rightarrow> \<not> is_space c"
    by (simp_all add: reference_at_def)
  from b obtain c r where d: "drop 10 s = c # r" and c: "\<not> is_space c"
    by (cases "drop 10 s") auto
  have "take 10 s @ c # r = take 10 s @ drop 10 s" by (simp only: d)
  then have s: "s = take 10 s @ c # r" by simp
  from equal_ignoring_case_length [OF a] have l: "length (take 10 s) = 10" by simp
  show thesis by (rule that [OF s l a c])
qed

lemma reference_at_intro:
  "length h = 10 \<Longrightarrow> equal_ignoring_case h ''similarTo:'' \<Longrightarrow> \<not> is_space c
   \<Longrightarrow> reference_at (h @ c # r)"
  by (simp add: reference_at_def)

lemma reference_at_take:
  assumes "take 11 s = take 11 t"
  shows "reference_at s = reference_at t"
proof -
  have r: "reference_at u = reference_at (take 11 u)" for u
    by (simp add: reference_at_def drop_take min_def split: list.splits)
  show ?thesis using r [of s] r [of t] assms by simp
qed

lemma reference_at_no_space:
  assumes "reference_at s"
  shows "11 \<le> length s" and "x \<in> set (take 11 s) \<Longrightarrow> \<not> is_space x"
proof -
  from assms obtain h c r where s: "s = h @ c # r" and l: "length h = 10"
    and e: "equal_ignoring_case h ''similarTo:''" and c: "\<not> is_space c"
    by (rule reference_at_split)
  show "11 \<le> length s" using s l by simp
  assume "x \<in> set (take 11 s)"
  with s l have "x \<in> set h \<or> x = c" by auto
  with similarTo_letters_no_space [OF e] c show "\<not> is_space x" by auto
qed

lemma reference_at_boundary:
  assumes "reference_at (a @ b)" and "b = [] \<or> is_space (hd b)"
  shows "11 \<le> length a"
proof (rule ccontr)
  assume "\<not> 11 \<le> length a"
  then have l: "length a < 11" by simp
  from reference_at_no_space(1) [OF assms(1)] l have "b \<noteq> []" by auto
  with assms(2) have sp: "is_space (hd b)" by simp
  from \<open>b \<noteq> []\<close> l have "hd b \<in> set (take 11 (a @ b))"
    by (cases b) (auto simp add: take_Cons')
  with reference_at_no_space(2) [OF assms(1)] sp show False by blast
qed

lemma match_at_reference:
  "similarToRegex_match_at s =
     (if reference_at s
      then Some (take 10 s @ takeWhile (\<lambda>c. \<not> is_space c) (drop 10 s),
                 takeWhile (\<lambda>c. \<not> is_space c) (drop 10 s))
      else None)"
  by (cases "drop 10 s") (simp_all add: similarToRegex_match_at_def reference_at_def Let_def)

lemma token_nonempty:
  "reference_at s \<Longrightarrow> takeWhile (\<lambda>c. \<not> is_space c) (drop 10 s) \<noteq> []"
  by (cases "drop 10 s") (simp_all add: reference_at_def)

lemma reference_at_take10: "reference_at s \<Longrightarrow> length (take 10 s) = 10"
  using reference_at_no_space(1) [of s] by simp

lemma after_token:
  "dropWhile (\<lambda>c. \<not> is_space c) xs = [] \<or> is_space (hd (dropWhile (\<lambda>c. \<not> is_space c) xs))"
  using hd_dropWhile [of "\<lambda>c. \<not> is_space c" xs] by blast

lemma exec_None: "similarToRegex_exec s = None \<Longrightarrow> free_prefix s []"
  by (induction s) (auto simp add: match_at_reference split: if_splits)

lemma exec_Some:
  assumes "similarToRegex_exec s = Some (m0, m1, r)"
  shows "\<exists>pre t. s = pre @ t \<and> free_prefix pre t \<and> reference_at t
           \<and> m0 = take 10 t @ m1
           \<and> m1 = takeWhile (\<lambda>c. \<not> is_space c) (drop 10 t)
           \<and> r = dropWhile (\<lambda>c. \<not> is_space c) (drop 10 t)"
  using assms
proof (induction s)
  case Nil
  then show ?case by simp
next
  case (Cons c cs)
  show ?case
  proof (cases "reference_at (c # cs)")
    case True
    let ?s = "c # cs"
    let ?t = "takeWhile (\<lambda>c. \<not> is_space c) (drop 10 ?s)"
    from True Cons.prems have m: "m0 = take 10 ?s @ ?t" "m1 = ?t" "r = drop (length m0) ?s"
      by (auto simp add: match_at_reference)
    have l: "length m0 = 10 + length ?t"
      using reference_at_take10 [OF True] m(1) by simp
    have "r = drop (length ?t) (drop 10 ?s)"
      unfolding m(3) l by (simp only: drop_drop add.commute)
    then have r: "r = dropWhile (\<lambda>c. \<not> is_space c) (drop 10 ?s)"
      by (simp only: dropWhile_eq_drop)
    have "?s = [] @ ?s" by simp
    moreover have "free_prefix [] ?s" by simp
    moreover have "m0 = take 10 ?s @ m1" using m(1,2) by simp
    ultimately show ?thesis using True m(2) r by blast
  next
    case False
    with Cons.prems have "similarToRegex_exec cs = Some (m0, m1, r)"
      by (simp add: match_at_reference)
    from Cons.IH [OF this] obtain pre t where
      p: "cs = pre @ t" "free_prefix pre t" "reference_at t"
         "m0 = take 10 t @ m1"
         "m1 = takeWhile (\<lambda>c. \<not> is_space c) (drop 10 t)"
         "r = dropWhile (\<lambda>c. \<not> is_space c) (drop 10 t)"
      by blast
    have "c # cs = (c # pre) @ t" using p(1) by simp
    moreover have "free_prefix (c # pre) t"
      using False p(1,2) by simp
    ultimately show ?thesis using p(3-6) by blast
  qed
qed

lemma segments_reference:
  "reference_at s \<Longrightarrow>
   segments s = Reference (take 10 s) (takeWhile (\<lambda>x. \<not> is_space x) (drop 10 s))
                  # segments (dropWhile (\<lambda>x. \<not> is_space x) (drop 10 s))"
  by (cases s) (simp_all add: reference_at_def equal_ignoring_case_def)

lemma segments_free_prefix:
  "free_prefix a b \<Longrightarrow> segments (a @ b) = map Text a @ segments b"
  by (induction a) simp_all

lemma reference_tokens_Text [simp]: "reference_tokens (map Text a @ gs) = reference_tokens gs"
  by (induction a) simp_all

lemma remaining_text_Text [simp]: "remaining_text (map Text a @ gs) = a @ remaining_text gs"
  by (induction a) simp_all

lemma free_prefix_append:
  "free_prefix (a @ b) c \<longleftrightarrow> free_prefix a (b @ c) \<and> free_prefix b c"
  by (induction a) simp_all

lemma free_prefix_skip:
  assumes "free_prefix a (m @ r)" and "r = [] \<or> is_space (hd r)"
  shows "free_prefix a r"
  using assms(1)
proof (induction a)
  case Nil
  then show ?case by simp
next
  case (Cons c cs)
  have "\<not> reference_at (c # cs @ r)"
  proof
    assume ref: "reference_at (c # cs @ r)"
    then have "reference_at ((c # cs) @ r)" by simp
    from reference_at_boundary [OF this assms(2)] have "11 \<le> length (c # cs)" .
    then have "take 11 (c # cs @ r) = take 11 (c # cs @ m @ r)" by simp
    from reference_at_take [OF this] ref Cons.prems show False by simp
  qed
  with Cons show ?case by simp
qed

lemma replace_first_free:
  assumes "free_prefix a (m @ r)" and "reference_at (m @ r)" and "11 \<le> length m"
  shows "replace_first m (a @ m @ r) = a @ r"
  using assms(1)
proof (induction a)
  case Nil
  from assms(3) obtain c cs where "m = c # cs" by (cases m) auto
  then show ?case by simp
next
  case (Cons c cs)
  have "take (length m) (c # cs @ m @ r) \<noteq> m"
  proof
    assume eq: "take (length m) (c # cs @ m @ r) = m"
    have "take 11 (c # cs @ m @ r) = take 11 (take (length m) (c # cs @ m @ r))"
      using assms(3) by (simp only: take_take min_absorb1)
    also have "\<dots> = take 11 m" by (simp only: eq)
    also have "\<dots> = take 11 (m @ r)" using assms(3) by simp
    finally have "reference_at (c # cs @ m @ r) = reference_at (m @ r)"
      by (rule reference_at_take)
    with assms(2) Cons.prems show False by simp
  qed
  with Cons show ?case by simp
qed

lemma parseQuery_loop_segments:
  "free_prefix d rest \<Longrightarrow>
   parseQuery_loop rest ids (d @ rest) =
     (ids @ reference_tokens (segments rest), d @ remaining_text (segments rest))"
proof (induction "length rest" arbitrary: rest ids d rule: less_induct)
  case less
  show ?case
  proof (cases "similarToRegex_exec rest")
    case None
    from segments_free_prefix [OF exec_None [OF None]]
    have "segments rest = map Text rest" by simp
    then have "reference_tokens (segments rest) = []" "remaining_text (segments rest) = rest"
      using reference_tokens_Text [of rest "[]"] remaining_text_Text [of rest "[]"] by simp_all
    moreover have "parseQuery_loop rest ids (d @ rest) = (ids, d @ rest)"
      by (subst parseQuery_loop.simps) (simp only: None option.case)
    ultimately show ?thesis by simp
  next
    case (Some x)
    obtain m0 m1 r where x: "x = (m0, m1, r)" by (cases x)
    from Some x have e: "similarToRegex_exec rest = Some (m0, m1, r)" by simp
    from exec_Some [OF e] obtain pre t where
      p: "rest = pre @ t" "free_prefix pre t" "reference_at t"
         "m0 = take 10 t @ m1"
         "m1 = takeWhile (\<lambda>c. \<not> is_space c) (drop 10 t)"
         "r = dropWhile (\<lambda>c. \<not> is_space c) (drop 10 t)"
      by blast
    have t: "t = m0 @ r"
      unfolding p(4) p(5) p(6) by simp
    have m1: "m1 \<noteq> []"
      unfolding p(5) by (rule token_nonempty [OF p(3)])
    have "length m0 = length (take 10 t) + length m1"
      unfolding p(4) by simp
    with reference_at_take10 [OF p(3)] m1 have l: "11 \<le> length m0"
      by (cases m1) simp_all
    have b: "r = [] \<or> is_space (hd r)"
      unfolding p(6) by (rule after_token)
    have "free_prefix (d @ pre) t"
      using less.prems p(2) unfolding p(1) by (simp add: free_prefix_append)
    then have f: "free_prefix (d @ pre) (m0 @ r)"
      by (simp only: t)
    have ref: "reference_at (m0 @ r)"
      using p(3) by (simp only: t)
    have "replace_first m0 ((d @ pre) @ m0 @ r) = (d @ pre) @ r"
      by (rule replace_first_free [OF f ref l])
    then have rf: "replace_first m0 (d @ rest) = (d @ pre) @ r"
      unfolding p(1) t by simp
    have "length rest = length pre + length m0 + length r"
      unfolding p(1) t by simp
    with l have "length r < length rest" by linarith
    from less.hyps [OF this free_prefix_skip [OF f b]]
    have ih: "parseQuery_loop r (ids @ [m1]) ((d @ pre) @ r) =
      ((ids @ [m1]) @ reference_tokens (segments r), (d @ pre) @ remaining_text (segments r))" .
    have "segments t = Reference (take 10 t) m1 # segments r"
      unfolding p(5) p(6) by (rule segments_reference [OF p(3)])
    then have sg: "segments rest = map Text pre @ Reference (take 10 t) m1 # segments r"
      unfolding p(1) by (simp only: segments_free_prefix [OF p(2)])
    have "parseQuery_loop rest ids (d @ rest) =
            parseQuery_loop r (ids @ [m1]) (replace_first m0 (d @ rest))"
      by (subst parseQuery_loop.simps) (simp only: e option.case prod.case)
    also have "\<dots> = ((ids @ [m1]) @ reference_tokens (segments r),
                      (d @ pre) @ remaining_text (segments r))"
      by (simp only: rf ih)
    finally show ?thesis by (simp add: sg)
  qed
qed

section \<open>The steps of trim_extra\<close>

text \<open>
  What each of the four steps does to a text: what it leaves alone, what it removes, and
  that it never touches a character that is not white space, trailing commas apart.
\<close>

lemma free_prefix_contains: "free_prefix s [] \<longleftrightarrow> \<not> contains_reference s"
  by (induction s) simp_all

lemma segments_no_reference:
  "\<not> contains_reference s \<Longrightarrow> segments s = map Text s"
  using segments_free_prefix [of s "[]"] by (simp add: free_prefix_contains)

lemma trimmed_last: "trimmed s \<Longrightarrow> s \<noteq> [] \<Longrightarrow> \<not> is_space (hd s) \<and> \<not> is_space (last s)"
  by (cases s) (simp_all add: trimmed_def)

lemma comma_no_space: "\<not> is_space CHR '',''"
  by (simp add: is_space_def)

lemma replace_comma_space_end_keep:
  "z \<noteq> [] \<Longrightarrow> \<not> is_space (last z) \<Longrightarrow> last z \<noteq> CHR '','' \<Longrightarrow>
   replace_comma_space_end (z @ y) = z @ replace_comma_space_end y"
proof (induction z)
  case Nil
  then show ?case by simp
next
  case (Cons c cs)
  show ?case
  proof (cases "cs = []")
    case True
    with Cons.prems show ?thesis by simp
  next
    case False
    with Cons.prems have "last cs \<in> set (cs @ y)" "\<not> is_space (last cs)" by simp_all
    then have "\<not> list_all is_space (cs @ y)"
      unfolding list_all_iff by blast
    with Cons False show ?thesis by simp
  qed
qed

lemma replace_comma_space_end_id:
  assumes "trimmed s" and "\<not> trailing_comma s"
  shows "replace_comma_space_end s = s"
proof (cases "s = []")
  case True
  then show ?thesis by simp
next
  case False
  with assms trimmed_last [OF assms(1) False]
  have "\<not> is_space (last s)" "last s \<noteq> CHR '',''"
    by (simp_all add: trailing_comma_def)
  from replace_comma_space_end_keep [OF False this, of "[]"] show ?thesis by simp
qed

lemma replace_comma_space_end_cases:
  "replace_comma_space_end s = s
   \<or> (\<exists>w. list_all is_space w \<and> s = replace_comma_space_end s @ CHR '','' # w)"
proof (induction s)
  case Nil
  then show ?case by simp
next
  case (Cons c cs)
  show ?case
  proof (cases "c = CHR '','' \<and> list_all is_space cs")
    case True
    then show ?thesis by auto
  next
    case False
    with Cons show ?thesis by auto
  qed
qed

lemma dropWhile_comma_last:
  "dropWhile is_space s = '','' \<Longrightarrow> s \<noteq> [] \<and> last s = CHR '',''"
proof (induction s)
  case Nil
  then show ?case by simp
next
  case (Cons c cs)
  then show ?case by (cases "is_space c") (auto split: if_splits)
qed

lemma dropWhile_contains: "x \<in> set s \<Longrightarrow> \<not> P x \<Longrightarrow> x \<in> set (dropWhile P s)"
  by (induction s) auto

lemma replace_space_comma_end_keep:
  assumes "z \<noteq> []" and "\<not> is_space (last z)" and "last z \<noteq> CHR '',''"
  shows "replace_space_comma_end (z @ y) = z @ replace_space_comma_end y"
  using assms
proof (induction z)
  case Nil
  then show ?case by simp
next
  case (Cons c cs)
  have "dropWhile is_space (c # cs @ y) \<noteq> '',''"
  proof
    assume d: "dropWhile is_space (c # cs @ y) = '',''"
    have "last (c # cs) \<in> set (c # cs @ y)"
      using last_in_set [of "c # cs"] by auto
    from dropWhile_contains [of "last (c # cs)" "c # cs @ y" is_space, OF this Cons.prems(2)] d
    have "last (c # cs) \<in> set '',''" by simp
    with Cons.prems(3) show False by simp
  qed
  moreover have "cs \<noteq> [] \<Longrightarrow> replace_space_comma_end (cs @ y) = cs @ replace_space_comma_end y"
    using Cons by simp
  ultimately show ?case by (cases "cs = []") simp_all
qed

lemma replace_space_comma_end_id:
  assumes "\<not> trailing_comma s"
  shows "replace_space_comma_end s = s"
  using assms
proof (induction s)
  case Nil
  then show ?case by simp
next
  case (Cons c cs)
  from Cons.prems dropWhile_comma_last [of "c # cs"]
  have "dropWhile is_space (c # cs) \<noteq> '',''"
    by (auto simp add: trailing_comma_def)
  moreover from Cons.prems have "\<not> trailing_comma cs"
    by (auto simp add: trailing_comma_def)
  ultimately show ?case using Cons.IH by simp
qed

lemma replace_space_comma_end_cases:
  "replace_space_comma_end s = s
   \<or> (\<exists>w. list_all is_space w \<and> s = replace_space_comma_end s @ w @ '','')"
proof (induction s)
  case Nil
  then show ?case by simp
next
  case (Cons c cs)
  show ?case
  proof (cases "dropWhile is_space (c # cs) = '',''")
    case True
    have "takeWhile is_space (c # cs) @ dropWhile is_space (c # cs) = c # cs"
      by (rule takeWhile_dropWhile_id)
    note id = this [unfolded True]
    have "c # cs = [] @ takeWhile is_space (c # cs) @ '',''"
      by (simp only: append_Nil id)
    moreover have "list_all is_space (takeWhile is_space (c # cs))"
      unfolding list_all_iff by (metis set_takeWhileD)
    moreover have "replace_space_comma_end (c # cs) = []" using True by simp
    ultimately show ?thesis by metis
  next
    case False
    with Cons show ?thesis by auto
  qed
qed

lemma replaceAll_spaces_Cons:
  "\<not> is_space z \<Longrightarrow> replaceAll_spaces (z # v) = z # replaceAll_spaces v"
  by (cases v) simp_all

lemma replaceAll_spaces_hd:
  "replaceAll_spaces (d # cs) \<noteq> [] \<and> is_space (hd (replaceAll_spaces (d # cs))) = is_space d"
  by (cases cs) (simp_all add: is_space_def)

lemma replaceAll_spaces_id: "\<not> double_space s \<Longrightarrow> replaceAll_spaces s = s"
  by (induction s rule: replaceAll_spaces.induct) auto

lemma double_space_Cons:
  "double_space (c # s) \<longleftrightarrow> (s \<noteq> [] \<and> is_space c \<and> is_space (hd s)) \<or> double_space s"
  by (cases s) auto

lemma dropWhile_hd: "dropWhile P s = [] \<or> \<not> P (hd (dropWhile P s))"
  using hd_dropWhile [of P s] by blast

lemma replaceAll_spaces_single: "\<not> double_space (replaceAll_spaces s)"
proof (induction s rule: replaceAll_spaces.induct)
  case 1
  then show ?case by simp
next
  case (2 c)
  then show ?case by simp
next
  case (3 c d cs)
  show ?case
  proof (cases "is_space c \<and> is_space d")
    case True
    let ?r = "dropWhile is_space cs"
    have "replaceAll_spaces ?r = [] \<or> \<not> is_space (hd (replaceAll_spaces ?r))"
    proof (cases ?r)
      case Nil
      then show ?thesis by (metis replaceAll_spaces.simps(1))
    next
      case (Cons z v)
      with dropWhile_hd [of is_space cs] have "\<not> is_space z" by simp
      with Cons show ?thesis by (simp add: replaceAll_spaces_Cons)
    qed
    with 3 True show ?thesis by (auto simp add: double_space_Cons)
  next
    case False
    with 3 replaceAll_spaces_hd [of d cs] show ?thesis
      by (auto simp add: double_space_Cons)
  qed
qed

lemma non_space_dropWhile: "non_space (dropWhile is_space s) = non_space s"
  by (induction s) (simp_all add: non_space_def)

lemma non_space_replaceAll_spaces: "non_space (replaceAll_spaces s) = non_space s"
proof (induction s rule: replaceAll_spaces.induct)
  case 1
  then show ?case by simp
next
  case (2 c)
  then show ?case by simp
next
  case (3 c d cs)
  show ?case
  proof (cases "is_space c \<and> is_space d")
    case True
    with 3 have "non_space (replaceAll_spaces (dropWhile is_space cs)) = non_space cs"
      by (simp add: non_space_dropWhile)
    with True show ?thesis by (simp add: non_space_def is_space_def)
  next
    case False
    with 3 have "non_space (replaceAll_spaces (d # cs)) = non_space (d # cs)" by simp
    with False show ?thesis by (simp add: non_space_def)
  qed
qed

lemma replaceAll_spaces_append:
  "\<not> is_space z \<Longrightarrow>
   replaceAll_spaces (u @ z # v) = replaceAll_spaces u @ z # replaceAll_spaces v"
proof (induction u rule: replaceAll_spaces.induct)
  case 1
  then show ?case by (simp add: replaceAll_spaces_Cons)
next
  case (2 c)
  then show ?case by (simp add: replaceAll_spaces_Cons)
next
  case (3 c d cs)
  show ?case
  proof (cases "is_space c \<and> is_space d")
    case True
    have "dropWhile is_space (cs @ z # v) = dropWhile is_space cs @ z # v"
      using 3(3) by (simp add: dropWhile_append3)
    with 3 True show ?thesis by simp
  next
    case False
    with 3 show ?thesis by auto
  qed
qed

lemma replaceAll_spaces_keep:
  assumes "w \<noteq> []" and "list_all (\<lambda>c. \<not> is_space c) w"
  shows "replaceAll_spaces (x @ w @ y) = replaceAll_spaces x @ w @ replaceAll_spaces y"
  using assms
proof (induction w arbitrary: x)
  case Nil
  then show ?case by simp
next
  case (Cons c cs)
  then have c: "\<not> is_space c" by simp
  show ?case
  proof (cases "cs = []")
    case True
    with c show ?thesis by (simp add: replaceAll_spaces_append)
  next
    case False
    from Cons.prems have "list_all (\<lambda>c. \<not> is_space c) cs" by simp
    from Cons.IH [OF False this, of "[]"]
    have "replaceAll_spaces (cs @ y) = cs @ replaceAll_spaces y" by simp
    with c show ?thesis by (simp add: replaceAll_spaces_append)
  qed
qed

lemma trim_id: "trimmed s \<Longrightarrow> trim s = s"
proof (cases s)
  case Nil
  then show ?thesis by (simp add: trim_def)
next
  case (Cons c cs)
  assume "trimmed s"
  with Cons have c: "\<not> is_space c" and l: "\<not> is_space (last s)"
    by (simp_all add: trimmed_def)
  from Cons have ne: "s \<noteq> []" by simp
  have "hd (rev s) = last s" by (simp only: hd_rev)
  with l ne have "rev s \<noteq> []" "\<not> is_space (hd (rev s))"
    by (simp_all only: rev_is_Nil_conv not_False_eq_True)
  then have "dropWhile is_space (rev s) = rev s"
    by (cases "rev s") simp_all
  moreover from c Cons have "dropWhile is_space s = s" by simp
  ultimately show ?thesis by (simp only: trim_def rev_rev_ident)
qed

lemma trimmed_trim: "trimmed (trim s)"
proof -
  let ?a = "dropWhile is_space s"
  let ?b = "dropWhile is_space (rev ?a)"
  show ?thesis
  proof (cases "?b = []")
    case True
    show ?thesis unfolding trim_def True by (simp add: trimmed_def)
  next
    case False
    with dropWhile_hd [of is_space "rev ?a"] have h: "\<not> is_space (hd ?b)" by blast
    from False have a: "?a \<noteq> []" by (metis dropWhile.simps(1) rev.simps(1))
    with dropWhile_hd [of is_space s] have ha: "\<not> is_space (hd ?a)" by blast
    have "rev ?a = takeWhile is_space (rev ?a) @ ?b" by simp
    then have "?a = rev ?b @ rev (takeWhile is_space (rev ?a))"
      by (metis rev_append rev_rev_ident)
    with False have "hd (rev ?b) = hd ?a"
      by (metis hd_append2 rev_is_Nil_conv)
    with ha have "\<not> is_space (hd (rev ?b))" by simp
    moreover from False h have "\<not> is_space (last (rev ?b))" by (simp add: last_rev)
    ultimately show ?thesis using False
      by (cases "rev ?b") (auto simp add: trim_def trimmed_def)
  qed
qed

lemma non_space_rev: "non_space (rev s) = rev (non_space s)"
  by (simp add: non_space_def rev_filter)

lemma non_space_trim: "non_space (trim s) = non_space s"
  by (simp add: trim_def non_space_rev non_space_dropWhile)

lemma double_space_append_left: "double_space s \<Longrightarrow> double_space (a @ s)"
proof (induction a)
  case Nil
  then show ?case by simp
next
  case (Cons c cs)
  then show ?case by (simp add: double_space_Cons)
qed

lemma double_space_append_right: "double_space s \<Longrightarrow> double_space (s @ b)"
proof (induction s)
  case Nil
  then show ?case by simp
next
  case (Cons c cs)
  then show ?case by (cases cs) (auto simp add: double_space_Cons)
qed

lemma double_space_trim: "\<not> double_space s \<Longrightarrow> \<not> double_space (trim s)"
proof
  assume n: "\<not> double_space s" and d: "double_space (trim s)"
  let ?a = "dropWhile is_space s"
  have "rev ?a = takeWhile is_space (rev ?a) @ dropWhile is_space (rev ?a)" by simp
  then have "?a = trim s @ rev (takeWhile is_space (rev ?a))"
    unfolding trim_def by (metis rev_append rev_rev_ident)
  with double_space_append_right [OF d] have "double_space ?a" by metis
  then have "double_space (takeWhile is_space s @ ?a)" by (rule double_space_append_left)
  with n show False by simp
qed

lemma trim_keep:
  assumes "w \<noteq> []" and "list_all (\<lambda>c. \<not> is_space c) w"
  shows "trim (x @ w @ y) = dropWhile is_space x @ w @ rev (dropWhile is_space (rev y))"
proof -
  from assms obtain c cs where w: "w = c # cs" and c: "\<not> is_space c"
    by (cases w) auto
  from assms have "\<not> is_space (last w)"
    using last_in_set [of w] unfolding list_all_iff by blast
  moreover have "w = butlast w @ [last w]" using assms(1) by simp
  ultimately obtain u z where u: "w = u @ [z]" and z: "\<not> is_space z" by metis
  have 1: "dropWhile is_space (x @ w @ y) = dropWhile is_space x @ w @ y"
    unfolding w using c by (simp add: dropWhile_append3)
  have "rev (dropWhile is_space x @ w @ y) = rev y @ z # rev u @ rev (dropWhile is_space x)"
    unfolding u by simp
  then have "dropWhile is_space (rev (dropWhile is_space x @ w @ y))
               = dropWhile is_space (rev y) @ z # rev u @ rev (dropWhile is_space x)"
    using z by (simp add: dropWhile_append3)
  then have "rev (dropWhile is_space (rev (dropWhile is_space x @ w @ y)))
               = dropWhile is_space x @ (u @ [z]) @ rev (dropWhile is_space (rev y))"
    by simp
  then have 2: "rev (dropWhile is_space (rev (dropWhile is_space x @ w @ y)))
               = dropWhile is_space x @ w @ rev (dropWhile is_space (rev y))"
    by (simp only: u)
  show ?thesis unfolding trim_def 1 by (rule 2)
qed

lemma trim_extra_id:
  assumes "trimmed s" and "\<not> double_space s" and "\<not> trailing_comma s"
  shows "trim_extra s = s"
  unfolding trim_extra_def
  by (simp only: replace_comma_space_end_id [OF assms(1,3)]
        replace_space_comma_end_id [OF assms(3)] replaceAll_spaces_id [OF assms(2)]
        trim_id [OF assms(1)])

lemma trim_extra_trimmed: "trimmed (trim_extra t)"
  unfolding trim_extra_def by (rule trimmed_trim)

lemma trim_extra_single: "\<not> double_space (trim_extra t)"
  unfolding trim_extra_def by (rule double_space_trim) (rule replaceAll_spaces_single)

lemma non_space_append: "non_space (a @ b) = non_space a @ non_space b"
  by (simp add: non_space_def)

lemma non_space_spaces: "list_all is_space w \<Longrightarrow> non_space w = []"
  by (induction w) (simp_all add: non_space_def)

lemma non_space_comma: "non_space (CHR '','' # w) = CHR '','' # non_space w"
  by (simp add: non_space_def is_space_def)

lemma non_space_trim_extra:
  "\<exists>cs. (cs = [] \<or> cs = '','' \<or> cs = '',,'') \<and> non_space t = non_space (trim_extra t) @ cs"
proof -
  let ?s1 = "replace_comma_space_end t"
  let ?s2 = "replace_space_comma_end ?s1"
  have r: "non_space (trim_extra t) = non_space ?s2"
    unfolding trim_extra_def by (simp only: non_space_trim non_space_replaceAll_spaces)
  from replace_comma_space_end_cases [of t]
  obtain c1 where c1: "c1 = [] \<or> c1 = '',''" "non_space t = non_space ?s1 @ c1"
  proof
    assume "?s1 = t"
    then have "non_space t = non_space ?s1 @ []" by simp
    then show ?thesis using that by blast
  next
    assume "\<exists>w. list_all is_space w \<and> t = ?s1 @ CHR '','' # w"
    then obtain w where w: "list_all is_space w" and t: "t = ?s1 @ CHR '','' # w" by blast
    have "non_space t = non_space (?s1 @ CHR '','' # w)"
      by (rule arg_cong [OF t])
    also have "\<dots> = non_space ?s1 @ '',''"
      by (simp only: non_space_append non_space_comma non_space_spaces [OF w])
    finally show ?thesis using that by blast
  qed
  from replace_space_comma_end_cases [of ?s1]
  obtain c2 where c2: "c2 = [] \<or> c2 = '',''" "non_space ?s1 = non_space ?s2 @ c2"
  proof
    assume "?s2 = ?s1"
    then have "non_space ?s1 = non_space ?s2 @ []" by simp
    then show ?thesis using that by blast
  next
    assume "\<exists>w. list_all is_space w \<and> ?s1 = ?s2 @ w @ '',''"
    then obtain w where w: "list_all is_space w" and t: "?s1 = ?s2 @ w @ '',''" by blast
    have "non_space ?s1 = non_space (?s2 @ w @ '','')"
      by (rule arg_cong [OF t])
    also have "\<dots> = non_space ?s2 @ '',''"
      by (simp only: non_space_append non_space_comma non_space_spaces [OF w])
        (simp add: non_space_def)
    finally show ?thesis using that by blast
  qed
  have "non_space t = non_space (trim_extra t) @ (c2 @ c1)"
    by (simp only: r c1(2) c2(2) append_assoc)
  moreover have "c2 @ c1 = [] \<or> c2 @ c1 = '','' \<or> c2 @ c1 = '',,''"
    using c1(1) c2(1) by auto
  ultimately show ?thesis by blast
qed

lemma replace_comma_space_end_two: "replace_comma_space_end (t @ '',,'') = t @ '',''"
  by (induction t) (simp_all add: comma_no_space)

lemma dropWhile_comma_iff:
  "dropWhile is_space (x @ '','') = '','' \<longleftrightarrow> list_all is_space x"
proof (induction x)
  case Nil
  then show ?case by (simp add: comma_no_space)
next
  case (Cons c cs)
  then show ?case by (cases "is_space c") simp_all
qed

lemma replace_space_comma_end_one:
  "\<exists>w. list_all is_space w \<and> t = replace_space_comma_end (t @ '','') @ w"
proof (induction t)
  case Nil
  then show ?case by (simp add: comma_no_space)
next
  case (Cons c cs)
  show ?case
  proof (cases "list_all is_space (c # cs)")
    case True
    with dropWhile_comma_iff [of "c # cs"]
    have "replace_space_comma_end ((c # cs) @ '','') = []" by simp
    with True show ?thesis by simp
  next
    case False
    with dropWhile_comma_iff [of "c # cs"]
    have "replace_space_comma_end ((c # cs) @ '','') = c # replace_space_comma_end (cs @ '','')"
      by simp
    with Cons show ?thesis by auto
  qed
qed

lemma non_space_trim_extra_two: "non_space (trim_extra (t @ '',,'')) = non_space t"
proof -
  from replace_space_comma_end_one [of t] obtain w where
    w: "list_all is_space w" and t: "t = replace_space_comma_end (t @ '','') @ w" by blast
  have "non_space t = non_space (replace_space_comma_end (t @ '','') @ w)"
    by (rule arg_cong [OF t])
  also have "\<dots> = non_space (replace_space_comma_end (t @ '',''))"
    by (simp only: non_space_append non_space_spaces [OF w] append_Nil2)
  finally have "non_space t = non_space (replace_space_comma_end (t @ '',''))" .
  then show ?thesis
    unfolding trim_extra_def
    by (simp only: non_space_trim non_space_replaceAll_spaces replace_comma_space_end_two)
qed

text \<open>
  Each step of the chain, as found by its regular expression, is the step described by
  what it removes; and trimming takes white space from the two ends and nothing else.
\<close>

lemma without_trailing_space_Cons:
  "without_trailing_space (c # cs)
     = (if list_all is_space (c # cs) then [] else c # without_trailing_space cs)"
  by (auto simp add: without_trailing_space_def dropWhile_append list_all_iff)

lemma without_trailing_space_spaces: "list_all is_space w \<Longrightarrow> without_trailing_space (x @ w) = without_trailing_space x"
  by (simp add: without_trailing_space_def dropWhile_append list_all_iff)

lemma without_trailing_space_last: "x \<noteq> [] \<Longrightarrow> \<not> is_space (last x) \<Longrightarrow> without_trailing_space x = x"
  by (cases x rule: rev_cases) (simp_all add: without_trailing_space_def)

lemma without_trailing_space_split:
  "\<exists>w. list_all is_space w \<and> t = without_trailing_space t @ w"
proof -
  have "rev t = takeWhile is_space (rev t) @ dropWhile is_space (rev t)" by simp
  then have "t = without_trailing_space t @ rev (takeWhile is_space (rev t))"
    unfolding without_trailing_space_def by (metis rev_append rev_rev_ident)
  moreover have "list_all is_space (rev (takeWhile is_space (rev t)))"
    unfolding list_all_iff by (metis set_rev set_takeWhileD)
  ultimately show ?thesis by blast
qed

lemma replace_comma_space_end_strip:
  "list_all is_space w \<Longrightarrow> replace_comma_space_end (u @ CHR '','' # w) = u"
  by (induction u) (simp_all add: comma_no_space)

lemma replace_comma_space_end_spec: "replace_comma_space_end t = strip_last_comma t"
proof (cases "trailing_comma (without_trailing_space t)")
  case True
  from without_trailing_space_split [of t] obtain w where w: "list_all is_space w"
    and t: "t = without_trailing_space t @ w" by blast
  from True have b: "without_trailing_space t = butlast (without_trailing_space t) @ '',''"
    unfolding trailing_comma_def by (metis append_butlast_last_id)
  have "t = butlast (without_trailing_space t) @ CHR '','' # w"
    using t b by (metis append_Cons append_Nil append_assoc)
  then have "replace_comma_space_end t = butlast (without_trailing_space t)"
    using replace_comma_space_end_strip [OF w, of "butlast (without_trailing_space t)"] by metis
  with True show ?thesis by (simp add: strip_last_comma_def)
next
  case False
  have "replace_comma_space_end t = t"
  proof (rule ccontr)
    assume n: "replace_comma_space_end t \<noteq> t"
    with replace_comma_space_end_cases [of t] obtain w where w: "list_all is_space w"
      and t: "t = replace_comma_space_end t @ CHR '','' # w" by blast
    have "t = (replace_comma_space_end t @ '','') @ w" using t by simp
    then have "without_trailing_space t = without_trailing_space (replace_comma_space_end t @ '','')"
      using without_trailing_space_spaces [OF w, of "replace_comma_space_end t @ '',''"] by metis
    also have "\<dots> = replace_comma_space_end t @ '',''"
      by (rule without_trailing_space_last) (simp_all add: comma_no_space)
    finally have "trailing_comma (without_trailing_space t)"
      by (simp add: trailing_comma_def)
    with False show False by blast
  qed
  with False show ?thesis by (simp add: strip_last_comma_def)
qed

lemma replace_space_comma_end_strip:
  "replace_space_comma_end (v @ '','') = without_trailing_space v"
proof (induction v)
  case Nil
  then show ?case by (simp add: comma_no_space without_trailing_space_def)
next
  case (Cons c cs)
  show ?case
  proof (cases "list_all is_space (c # cs)")
    case True
    with dropWhile_comma_iff [of "c # cs"]
    have "replace_space_comma_end ((c # cs) @ '','') = []" by simp
    with True show ?thesis by (simp only: without_trailing_space_Cons if_True)
  next
    case False
    with dropWhile_comma_iff [of "c # cs"]
    have "replace_space_comma_end ((c # cs) @ '','') = c # replace_space_comma_end (cs @ '','')"
      by simp
    with False Cons show ?thesis by (simp only: without_trailing_space_Cons if_False)
  qed
qed

lemma replace_space_comma_end_spec: "replace_space_comma_end t = strip_end_comma t"
proof (cases "trailing_comma t")
  case True
  then have "t = butlast t @ '',''"
    unfolding trailing_comma_def by (metis append_butlast_last_id)
  then have "replace_space_comma_end t = without_trailing_space (butlast t)"
    using replace_space_comma_end_strip [of "butlast t"] by metis
  with True show ?thesis by (simp add: strip_end_comma_def)
next
  case False
  with replace_space_comma_end_id [OF False] show ?thesis by (simp add: strip_end_comma_def)
qed

lemma runs_hd: "runs (c # cs) \<noteq> [] \<and> hd (runs (c # cs)) \<noteq> [] \<and> hd (hd (runs (c # cs))) = c"
  by (simp split: list.splits)

lemma collapse_runs_Nil: "collapse_runs [] = []"
  by (simp add: collapse_runs_def)

lemma collapse_runs_other:
  "\<not> is_space c \<Longrightarrow> collapse_runs (c # s) = c # collapse_runs s"
  by (auto simp add: collapse_runs_def collapse_run_def split: list.splits)

lemma collapse_runs_one:
  assumes "is_space c" and "s = [] \<or> \<not> is_space (hd s)"
  shows "collapse_runs (c # s) = c # collapse_runs s"
proof (cases s)
  case Nil
  then show ?thesis by (simp add: collapse_runs_def collapse_run_def)
next
  case (Cons d ds)
  with assms runs_hd [of d ds] show ?thesis
    by (auto simp add: collapse_runs_def collapse_run_def split: list.splits)
qed

lemma runs_spaces:
  assumes "w \<noteq> []" and "list_all is_space w" and "y = [] \<or> \<not> is_space (hd y)"
  shows "runs (w @ y) = w # runs y"
  using assms
proof (induction w)
  case Nil
  then show ?case by simp
next
  case (Cons c w)
  show ?case
  proof (cases "w = []")
    case True
    show ?thesis
    proof (cases y)
      case Nil
      with True show ?thesis by simp
    next
      case (Cons d ds)
      with True Cons.prems assms(3) runs_hd [of d ds] show ?thesis
        by (auto split: list.splits)
    qed
  next
    case False
    with Cons have "runs (w @ y) = w # runs y" by simp
    with False Cons.prems show ?thesis by (cases w) auto
  qed
qed

lemma collapse_runs_many:
  assumes "is_space c" and "is_space d"
  shows "collapse_runs (c # d # cs) = CHR '' '' # collapse_runs (dropWhile is_space cs)"
proof -
  let ?w = "c # d # takeWhile is_space cs"
  let ?y = "dropWhile is_space cs"
  have w: "list_all is_space ?w"
    using assms unfolding list_all_iff by (auto dest: set_takeWhileD)
  have "runs (?w @ ?y) = ?w # runs ?y"
    using runs_spaces [OF _ w, of ?y] dropWhile_hd [of is_space cs] by simp
  moreover have "?w @ ?y = c # d # cs" by simp
  ultimately have "runs (c # d # cs) = ?w # runs ?y" by (simp only:)
  with assms show ?thesis by (simp add: collapse_runs_def collapse_run_def)
qed

lemma replaceAll_spaces_spec: "replaceAll_spaces t = collapse_runs t"
proof (induction t rule: replaceAll_spaces.induct)
  case 1
  then show ?case by (simp add: collapse_runs_Nil)
next
  case (2 c)
  then show ?case by (simp add: collapse_runs_def collapse_run_def)
next
  case (3 c d cs)
  show ?case
  proof (cases "is_space c \<and> is_space d")
    case True
    with 3 collapse_runs_many [of c d cs] show ?thesis by simp
  next
    case False
    with 3 have r: "replaceAll_spaces (c # d # cs) = c # collapse_runs (d # cs)" by auto
    show ?thesis
    proof (cases "is_space c")
      case True
      with False collapse_runs_one [of c "d # cs"] r show ?thesis by simp
    next
      case False
      with collapse_runs_other [of c "d # cs"] r show ?thesis by simp
    qed
  qed
qed

lemma trim_split: "\<exists>a b. list_all is_space a \<and> list_all is_space b \<and> s = a @ trim s @ b"
proof -
  let ?d = "dropWhile is_space s"
  have "rev ?d = takeWhile is_space (rev ?d) @ dropWhile is_space (rev ?d)" by simp
  then have "?d = trim s @ rev (takeWhile is_space (rev ?d))"
    unfolding trim_def by (metis rev_append rev_rev_ident)
  then have "takeWhile is_space s @ ?d = takeWhile is_space s @ trim s @ rev (takeWhile is_space (rev ?d))"
    by (rule arg_cong)
  then have "s = takeWhile is_space s @ trim s @ rev (takeWhile is_space (rev ?d))"
    by (simp only: takeWhile_dropWhile_id)
  moreover have "list_all is_space (takeWhile is_space s)"
    unfolding list_all_iff by (metis set_takeWhileD)
  moreover have "list_all is_space (rev (takeWhile is_space (rev ?d)))"
    unfolding list_all_iff by (metis set_rev set_takeWhileD)
  ultimately show ?thesis by blast
qed

lemma trim_of_padded:
  assumes "list_all is_space a" and "list_all is_space b" and "trimmed u"
  shows "trim (a @ u @ b) = u"
proof (cases u)
  case Nil
  from assms(1,2) have d: "dropWhile is_space (a @ b) = []"
    by (simp add: list_all_iff)
  show ?thesis unfolding Nil trim_def append_Nil d by simp
next
  case (Cons c cs)
  with assms(3) have c: "\<not> is_space c" and l: "\<not> is_space (last u)"
    by (simp_all add: trimmed_def)
  from Cons have ne: "u \<noteq> []" by simp
  from assms(1) c Cons have 1: "dropWhile is_space (a @ u @ b) = u @ b"
    by (simp add: dropWhile_append list_all_iff)
  have "hd (rev u) = last u" by (simp only: hd_rev)
  with l ne have "rev u \<noteq> []" "\<not> is_space (hd (rev u))"
    by (simp_all only: rev_is_Nil_conv not_False_eq_True)
  then have "dropWhile is_space (rev u) = rev u"
    by (cases "rev u") simp_all
  with assms(2) have "dropWhile is_space (rev (u @ b)) = rev u"
    by (simp add: dropWhile_append list_all_iff)
  then show ?thesis unfolding trim_def 1 by simp
qed

text \<open>
  So a text that is trimmed and stands in \<open>t\<close> between white space is the only such text.
\<close>

lemma trimmed_unique:
  assumes "list_all is_space a" and "list_all is_space b" and "trimmed u"
    and "list_all is_space a'" and "list_all is_space b'" and "trimmed u'"
    and "a @ u @ b = a' @ u' @ b'"
  shows "u = u'"
  using trim_of_padded [OF assms(1-3)] trim_of_padded [OF assms(4-6)] assms(7) by simp

lemma trim_extra_spec:
  "\<exists>a b. list_all is_space a \<and> list_all is_space b
     \<and> collapse_runs (strip_end_comma (strip_last_comma t)) = a @ trim_extra t @ b"
  using trim_split [of "collapse_runs (strip_end_comma (strip_last_comma t))"]
  unfolding trim_extra_def
  by (simp only: replace_comma_space_end_spec replace_space_comma_end_spec replaceAll_spaces_spec)

lemma trim_extra_keep:
  assumes "w \<noteq> []" and "list_all (\<lambda>c. \<not> is_space c) w" and "last w \<noteq> CHR '',''"
  shows "\<exists>u v. trim_extra (x @ w @ y) = u @ w @ v"
proof -
  from assms(1,2) have l: "\<not> is_space (last w)"
    using last_in_set [of w] unfolding list_all_iff by blast
  have z: "x @ w \<noteq> []" "\<not> is_space (last (x @ w))" "last (x @ w) \<noteq> CHR '',''"
    using assms(1,3) l by simp_all
  define y1 where "y1 = replace_comma_space_end y"
  define y2 where "y2 = replace_space_comma_end y1"
  have "replace_comma_space_end (x @ w @ y) = (x @ w) @ y1"
    using replace_comma_space_end_keep [OF z, of y] by (simp add: y1_def)
  moreover have "replace_space_comma_end ((x @ w) @ y1) = (x @ w) @ y2"
    using replace_space_comma_end_keep [OF z, of y1] by (simp add: y2_def)
  moreover have "replaceAll_spaces ((x @ w) @ y2)
                   = replaceAll_spaces x @ w @ replaceAll_spaces y2"
    using replaceAll_spaces_keep [OF assms(1,2), of x y2] by simp
  moreover note trim_keep [OF assms(1,2), of "replaceAll_spaces x" "replaceAll_spaces y2"]
  ultimately have "trim_extra (x @ w @ y) =
      dropWhile is_space (replaceAll_spaces x) @ w
        @ rev (dropWhile is_space (rev (replaceAll_spaces y2)))"
    unfolding trim_extra_def by (simp only:)
  then show ?thesis by blast
qed

lemma token_before_space:
  assumes "r = [] \<or> is_space (hd r)"
  shows "takeWhile (\<lambda>c. \<not> is_space c) (u @ r) = takeWhile (\<lambda>c. \<not> is_space c) u"
    and "dropWhile (\<lambda>c. \<not> is_space c) (u @ r) = dropWhile (\<lambda>c. \<not> is_space c) u @ r"
proof -
  from assms have t: "takeWhile (\<lambda>c. \<not> is_space c) r = []"
    and d: "dropWhile (\<lambda>c. \<not> is_space c) r = r"
    by (cases r; auto)+
  show "takeWhile (\<lambda>c. \<not> is_space c) (u @ r) = takeWhile (\<lambda>c. \<not> is_space c) u"
    by (induction u) (simp_all add: t)
  show "dropWhile (\<lambda>c. \<not> is_space c) (u @ r) = dropWhile (\<lambda>c. \<not> is_space c) u @ r"
    by (induction u) (simp_all add: d)
qed

lemma reference_at_before_space:
  assumes "r = [] \<or> is_space (hd r)"
  shows "reference_at (y @ r) = reference_at y"
proof (cases "11 \<le> length y")
  case True
  then have "take 11 (y @ r) = take 11 y" by simp
  then show ?thesis by (rule reference_at_take)
next
  case False
  with reference_at_boundary [OF _ assms, of y] have "\<not> reference_at (y @ r)" by blast
  moreover from False reference_at_no_space(1) [of y] have "\<not> reference_at y" by blast
  ultimately show ?thesis by simp
qed

lemma segments_before_space:
  "r = [] \<or> is_space (hd r) \<Longrightarrow> segments (y @ r) = segments y @ segments r"
proof (induction y rule: segments.induct)
  case 1
  then show ?case by simp
next
  case (2 c cs)
  note eq = reference_at_before_space [OF 2(3), of "c # cs"]
  show ?case
  proof (cases "reference_at (c # cs)")
    case True
    with eq have ref: "reference_at ((c # cs) @ r)" by blast
    from reference_at_no_space(1) [OF True] have len: "10 \<le> length (c # cs)" by simp
    have t10: "take 10 ((c # cs) @ r) = take 10 (c # cs)"
      and d10: "drop 10 ((c # cs) @ r) = drop 10 (c # cs) @ r"
      using len by simp_all
    show ?thesis
      unfolding segments_reference [OF ref] segments_reference [OF True] t10 d10
        token_before_space [OF 2(3)] 2(1) [OF True 2(3)]
      by simp
  next
    case False
    with eq have "\<not> reference_at ((c # cs) @ r)" by blast
    with False 2(2) [OF False 2(3)] show ?thesis by simp
  qed
qed

lemma token_within:
  assumes "\<exists>c\<in>set u. is_space c"
  shows "takeWhile (\<lambda>c. \<not> is_space c) (u @ x) = takeWhile (\<lambda>c. \<not> is_space c) u"
    and "dropWhile (\<lambda>c. \<not> is_space c) (u @ x) = dropWhile (\<lambda>c. \<not> is_space c) u @ x"
proof -
  from assms obtain c where c: "c \<in> set u" "\<not> \<not> is_space c" by blast
  show "takeWhile (\<lambda>c. \<not> is_space c) (u @ x) = takeWhile (\<lambda>c. \<not> is_space c) u"
    by (rule takeWhile_append1 [of c u "\<lambda>c. \<not> is_space c" x, OF c])
  show "dropWhile (\<lambda>c. \<not> is_space c) (u @ x) = dropWhile (\<lambda>c. \<not> is_space c) u @ x"
    by (rule dropWhile_append1 [of c u "\<lambda>c. \<not> is_space c" x, OF c])
qed

lemma reference_at_after_space:
  assumes "is_space (last a)" and "a \<noteq> []"
  shows "reference_at (a @ x) = reference_at a"
proof (cases "11 \<le> length a")
  case True
  then have "take 11 (a @ x) = take 11 a" by simp
  then show ?thesis by (rule reference_at_take)
next
  case False
  have "\<not> reference_at (a @ x)"
  proof
    assume ref: "reference_at (a @ x)"
    from False assms(2) have "last a \<in> set (take 11 (a @ x))"
      using last_in_set [of a] by simp
    with reference_at_no_space(2) [OF ref] assms(1) show False by blast
  qed
  moreover from False reference_at_no_space(1) [of a] have "\<not> reference_at a" by blast
  ultimately show ?thesis by simp
qed

lemma segments_after_space:
  "a = [] \<or> is_space (last a) \<Longrightarrow> segments (a @ x) = segments a @ segments x"
proof (induction a rule: segments.induct)
  case 1
  then show ?case by simp
next
  case (2 c cs)
  from 2(3) have sp: "is_space (last (c # cs))" by simp
  note eq = reference_at_after_space [OF sp list.distinct(2), of x]
  show ?case
  proof (cases "reference_at (c # cs)")
    case True
    let ?d = "drop 10 (c # cs)"
    let ?r = "dropWhile (\<lambda>c. \<not> is_space c) ?d"
    from reference_at_no_space(1) [OF True] have len: "10 < length (c # cs)" by simp
    then have ld: "last ?d = last (c # cs)" by (rule last_drop)
    from len have d: "?d \<noteq> []" by simp
    from last_in_set [OF d] sp have e: "\<exists>c\<in>set ?d. is_space c"
      unfolding ld by blast
    then have rn: "?r \<noteq> []" by (simp add: dropWhile_eq_Nil_conv)
    have "last (takeWhile (\<lambda>c. \<not> is_space c) ?d @ ?r) = last ?r"
      using rn by (rule last_appendR)
    then have "last ?r = last ?d" by (simp only: takeWhile_dropWhile_id)
    with sp ld have l: "?r = [] \<or> is_space (last ?r)" by simp
    from eq True have ref: "reference_at ((c # cs) @ x)" by blast
    have t10: "take 10 ((c # cs) @ x) = take 10 (c # cs)"
      and d10: "drop 10 ((c # cs) @ x) = drop 10 (c # cs) @ x"
      using len by simp_all
    show ?thesis
      unfolding segments_reference [OF ref] segments_reference [OF True] t10 d10
        token_within [OF e] 2(1) [OF True l]
      by simp
  next
    case False
    with eq have n: "\<not> reference_at ((c # cs) @ x)" by blast
    from 2(3) have "cs = [] \<or> is_space (last cs)" by (cases "cs = []") simp_all
    from 2(2) [OF False this] False n show ?thesis by simp
  qed
qed

lemma reference_tokens_append:
  "reference_tokens (g @ g') = reference_tokens g @ reference_tokens g'"
  by (induction g rule: reference_tokens.induct) simp_all

lemma remaining_text_append:
  "remaining_text (g @ g') = remaining_text g @ remaining_text g'"
  by (induction g rule: remaining_text.induct) simp_all

lemma similarTo_last:
  assumes "equal_ignoring_case h ''similarTo:''"
  shows "h \<noteq> []" and "last h \<noteq> CHR '',''"
proof -
  from equal_ignoring_case_length [OF assms] show ne: "h \<noteq> []" by auto
  from assms have m: "map canonicalize h = map canonicalize ''similarTo:''"
    by (simp only: equal_ignoring_case_def)
  have "canonicalize (last h) = last (map canonicalize h)"
    using ne by (simp add: last_map)
  also have "\<dots> = last (map canonicalize ''similarTo:'')"
    by (simp only: m)
  also have "\<dots> = CHR '':''"
    by (simp add: canonicalize_def)
  finally have "canonicalize (last h) = CHR '':''" .
  moreover have "canonicalize CHR '','' = CHR '',''"
    by (simp add: canonicalize_def)
  ultimately show "last h \<noteq> CHR '',''" by auto
qed

lemma similarTo_alone: "equal_ignoring_case h ''similarTo:'' \<Longrightarrow> \<not> reference_at h"
  using reference_at_no_space(1) [of h] equal_ignoring_case_length [of h "''similarTo:''"]
  by auto

section \<open>The references of a query\<close>

text \<open>
  The loop of \<^verbatim>\<open>parseQuery\<close> removes each match from the search text by
  \<^verbatim>\<open>replace\<close>, which looks for the first occurrence of the matched string. That
  occurrence is the match itself: whatever of the query lies before it is free of
  references. So the parser returns the tokens of the segments of the query, and the
  text of the segments that are not references, trimmed.
\<close>

lemma parseQuery_by_segments:
  "parseQuery s =
     \<lparr>similarToAssetIds = reference_tokens (segments s),
      searchText = trim_extra (remaining_text (segments s))\<rparr>"
  using parseQuery_loop_segments [of "[]" s "[]"] by (simp add: parseQuery_def)

lemma reference_tokens_only_Text: "reference_tokens (map Text a) = []"
  using reference_tokens_Text [of a "[]"] by simp

lemma remaining_text_only_Text: "remaining_text (map Text a) = a"
  using remaining_text_Text [of a "[]"] by simp

lemma written_segments: "written (segments s) = s"
proof (induction s rule: segments.induct)
  case 1
  then show ?case by simp
next
  case (2 c cs)
  show ?case
  proof (cases "reference_at (c # cs)")
    case True
    have "take 10 (c # cs) @ takeWhile (\<lambda>x. \<not> is_space x) (drop 10 (c # cs))
            @ dropWhile (\<lambda>x. \<not> is_space x) (drop 10 (c # cs)) = c # cs"
      by (simp only: takeWhile_dropWhile_id append_take_drop_id)
    with 2(1) [OF True] show ?thesis
      unfolding segments_reference [OF True] by (simp only: written.simps)
  next
    case False
    with 2(2) show ?thesis by simp
  qed
qed

lemma segments_references:
  "Reference h t \<in> set (segments s) \<Longrightarrow>
   equal_ignoring_case h ''similarTo:'' \<and> t \<noteq> [] \<and> list_all (\<lambda>c. \<not> is_space c) t"
proof (induction s rule: segments.induct)
  case 1
  then show ?case by simp
next
  case (2 c cs)
  show ?case
  proof (cases "reference_at (c # cs)")
    case True
    let ?t = "takeWhile (\<lambda>x. \<not> is_space x) (drop 10 (c # cs))"
    from 2(3) have "(h = take 10 (c # cs) \<and> t = ?t)
        \<or> Reference h t \<in> set (segments (dropWhile (\<lambda>x. \<not> is_space x) (drop 10 (c # cs))))"
      unfolding segments_reference [OF True] by simp
    then show ?thesis
    proof
      assume e: "h = take 10 (c # cs) \<and> t = ?t"
      have "list_all (\<lambda>c. \<not> is_space c) ?t"
        unfolding list_all_iff by (metis set_takeWhileD)
      moreover from True have "equal_ignoring_case (take 10 (c # cs)) ''similarTo:''"
        by (simp only: reference_at_def)
      ultimately show ?thesis using e token_nonempty [OF True] by simp
    next
      assume "Reference h t \<in> set (segments (dropWhile (\<lambda>x. \<not> is_space x) (drop 10 (c # cs))))"
      from 2(1) [OF True this] show ?thesis .
    qed
  next
    case False
    with 2(2,3) show ?thesis by simp
  qed
qed

text \<open>
  The segments are a reading of the query, not a rewriting of it: written out one after
  the other they give the query back. Every reference among them starts with the
  letters of \<^verbatim>\<open>similarTo:\<close> in some letter case and has a token that is not empty and holds no
  white space; after a reference comes white space or the end of the query, so the
  token is as long as it can be.
\<close>

lemma space_no_reference: "is_space z \<Longrightarrow> \<not> reference_at (z # d)"
  using reference_at_no_space [of "z # d"] by auto

lemma segments_maximal:
  "segments s = g @ Reference h t # g' \<Longrightarrow>
   g' = [] \<or> (\<exists>c g''. g' = Text c # g'' \<and> is_space c)"
proof (induction s arbitrary: g rule: segments.induct)
  case 1
  then show ?case by simp
next
  case (2 c cs)
  show ?case
  proof (cases "reference_at (c # cs)")
    case True
    let ?d = "dropWhile (\<lambda>x. \<not> is_space x) (drop 10 (c # cs))"
    from 2(3) have s: "Reference (take 10 (c # cs)) (takeWhile (\<lambda>x. \<not> is_space x) (drop 10 (c # cs)))
        # segments ?d = g @ Reference h t # g'"
      unfolding segments_reference [OF True] .
    show ?thesis
    proof (cases g)
      case Nil
      with s have g': "g' = segments ?d" by simp
      show ?thesis
      proof (cases ?d)
        case Nil
        have "segments [] = []" by simp
        then have "g' = []" unfolding g' Nil .
        then show ?thesis by blast
      next
        case (Cons z d')
        from after_token [of "drop 10 (c # cs)"] have z: "is_space z"
          unfolding Cons by simp
        from space_no_reference [OF z, of d'] have "segments (z # d') = Text z # segments d'"
          by simp
        then have "g' = Text z # segments d'" unfolding g' Cons .
        with z show ?thesis by blast
      qed
    next
      case (Cons x g0)
      with s have "segments ?d = g0 @ Reference h t # g'" by simp
      from 2(1) [OF True this] show ?thesis .
    qed
  next
    case False
    with 2(3) have s: "Text c # segments cs = g @ Reference h t # g'" by simp
    then obtain g0 where "g = Text c # g0" by (cases g) auto
    with s have "segments cs = g0 @ Reference h t # g'" by simp
    from 2(2) [OF False this] show ?thesis .
  qed
qed

text \<open>
  C7. The query is the sequence of its segments, read from left to right without
  overlap; the parser returns as \<^verbatim>\<open>similarToAssetIds\<close> the tokens of the references
  among them, in the order of the query and with repetitions, and as \<^verbatim>\<open>searchText\<close>
  the text of the other segments, all references removed, after trimming.
\<close>

theorem parseQuery_references:
  "written (segments s) = s
   \<and> similarToAssetIds (parseQuery s) = reference_tokens (segments s)
   \<and> searchText (parseQuery s) = trim_extra (remaining_text (segments s))"
  by (simp add: written_segments parseQuery_by_segments)

section \<open>Trimming white space and commas\<close>

text \<open>
  C6, as amended. The search text is what the three steps leave of the text that remained
  after the references were removed, without the white space around it: the last comma
  goes when only white space follows it, with that white space; then a comma at the very
  end goes, with the white space before it; then every run of two or more white-space
  characters becomes one space. The search text neither starts nor ends with white space
  and has no two white-space characters in a row. Its characters other than white space
  are those of the remaining text, except for at most two commas at the end; and a text
  that ends in two commas loses both.
\<close>

theorem trim_extra_commas:
  "(\<exists>a b. list_all is_space a \<and> list_all is_space b
      \<and> collapse_runs (strip_end_comma (strip_last_comma (remaining_text (segments s))))
          = a @ searchText (parseQuery s) @ b)
   \<and> trimmed (searchText (parseQuery s))
   \<and> \<not> double_space (searchText (parseQuery s))
   \<and> (\<exists>cs. (cs = [] \<or> cs = '','' \<or> cs = '',,'')
         \<and> non_space (remaining_text (segments s)) = non_space (searchText (parseQuery s)) @ cs)
   \<and> non_space (trim_extra (t @ '',,'')) = non_space t"
  using non_space_trim_extra [of "remaining_text (segments s)"]
    trim_extra_spec [of "remaining_text (segments s)"]
  by (simp add: parseQuery_by_segments trim_extra_trimmed trim_extra_single
        non_space_trim_extra_two)

text \<open>
  The query \<^verbatim>\<open>a,,\<close> loses both commas: the first replacement removes the last one, the
  second replacement the one before it.
\<close>

theorem parseQuery_two_commas:
  "searchText (parseQuery ''a,,'') = ''a'' \<and> searchText (parseQuery ''a,,'') \<noteq> ''a,''"
  by code_simp

section \<open>Parsing clean text\<close>

text \<open>
  C9. A query that holds no reference, neither starts nor ends with white space, has no
  two white-space characters in a row and does not end with a comma is returned as the
  search text, unchanged, with no references.
\<close>

theorem parseQuery_clean_text:
  assumes "\<not> contains_reference s" and "trimmed s" and "\<not> double_space s"
    and "\<not> trailing_comma s"
  shows "parseQuery s = \<lparr>similarToAssetIds = [], searchText = s\<rparr>"
proof -
  from segments_no_reference [OF assms(1)]
  have "reference_tokens (segments s) = []" "remaining_text (segments s) = s"
    using reference_tokens_Text [of s "[]"] remaining_text_Text [of s "[]"] by simp_all
  with trim_extra_id [OF assms(2-4)] show ?thesis
    by (simp add: parseQuery_by_segments)
qed

theorem parseQuery_clean_text_witness:
  "\<not> contains_reference ''sunset beach'' \<and> trimmed ''sunset beach''
   \<and> \<not> double_space ''sunset beach'' \<and> \<not> trailing_comma ''sunset beach''
   \<and> parseQuery ''sunset beach'' = \<lparr>similarToAssetIds = [], searchText = ''sunset beach''\<rparr>"
proof -
  have 1: "\<not> contains_reference ''sunset beach''" by code_simp
  have 2: "trimmed ''sunset beach''" by code_simp
  have 3: "\<not> double_space ''sunset beach''" by code_simp
  have 4: "\<not> trailing_comma ''sunset beach''" by code_simp
  from 1 2 3 4 parseQuery_clean_text [OF 1 2 3 4] show ?thesis
    by (simp only: simp_thms)
qed

section \<open>similarTo: without a token\<close>

text \<open>
  C10, as amended. Take an occurrence \<open>h\<close> of \<^verbatim>\<open>similarTo:\<close>, in any letter case, that
  is followed by white space or by the end of the query \<open>a @ q @ h @ r\<close>, where \<open>a\<close> is
  empty or ends with white space and no reference starts in \<open>q @ h\<close>: the occurrence is
  not part of the token of an earlier reference. Then it adds nothing to the
  references, which are those of \<open>a\<close> followed by those of \<open>r\<close>, and its text is part of
  the search text.
\<close>

theorem bare_similarTo_kept:
  assumes "equal_ignoring_case h ''similarTo:''"
    and "r = [] \<or> is_space (hd r)"
    and "a = [] \<or> is_space (last a)"
    and "\<not> contains_reference (q @ h)"
  shows "similarToAssetIds (parseQuery (a @ q @ h @ r))
           = similarToAssetIds (parseQuery a) @ similarToAssetIds (parseQuery r)
         \<and> (\<exists>u v. searchText (parseQuery (a @ q @ h @ r)) = u @ h @ v)"
proof -
  have "segments (a @ q @ h @ r) = segments a @ segments ((q @ h) @ r)"
    using segments_after_space [OF assms(3), of "q @ h @ r"] by simp
  also have "segments ((q @ h) @ r) = segments (q @ h) @ segments r"
    by (rule segments_before_space [OF assms(2)])
  also have "segments (q @ h) = map Text (q @ h)"
    by (rule segments_no_reference [OF assms(4)])
  finally have sg: "segments (a @ q @ h @ r) = segments a @ map Text (q @ h) @ segments r" .
  have ids: "reference_tokens (segments (a @ q @ h @ r))
               = reference_tokens (segments a) @ reference_tokens (segments r)"
    unfolding sg by (simp only: reference_tokens_append reference_tokens_only_Text append_Nil)
  have "remaining_text (segments (a @ q @ h @ r))
          = remaining_text (segments a) @ (q @ h) @ remaining_text (segments r)"
    unfolding sg by (simp only: remaining_text_append remaining_text_only_Text)
  then have rest: "remaining_text (segments (a @ q @ h @ r))
          = (remaining_text (segments a) @ q) @ h @ remaining_text (segments r)"
    by simp
  have "list_all (\<lambda>c. \<not> is_space c) h"
    unfolding list_all_iff using similarTo_letters_no_space [OF assms(1)] by blast
  from trim_extra_keep [OF similarTo_last(1) [OF assms(1)] this similarTo_last(2) [OF assms(1)]]
  have "\<exists>u v. trim_extra (remaining_text (segments (a @ q @ h @ r))) = u @ h @ v"
    unfolding rest .
  with ids show ?thesis
    by (simp only: parseQuery_by_segments SmartSearchQuery.simps simp_thms)
qed

theorem bare_similarTo_kept_witness:
  "equal_ignoring_case ''SIMILARTO:'' ''similarTo:''
   \<and> ('' similarTo:u2'' = [] \<or> is_space (hd '' similarTo:u2''))
   \<and> (''similarTo:u1 '' = [] \<or> is_space (last ''similarTo:u1 ''))
   \<and> \<not> contains_reference (''x'' @ ''SIMILARTO:'')
   \<and> similarToAssetIds
        (parseQuery (''similarTo:u1 '' @ ''x'' @ ''SIMILARTO:'' @ '' similarTo:u2''))
        = similarToAssetIds (parseQuery ''similarTo:u1 '')
            @ similarToAssetIds (parseQuery '' similarTo:u2'')
   \<and> (\<exists>u v. searchText
                (parseQuery (''similarTo:u1 '' @ ''x'' @ ''SIMILARTO:'' @ '' similarTo:u2''))
               = u @ ''SIMILARTO:'' @ v)
   \<and> parseQuery ''similarTo:u1 xSIMILARTO: similarTo:u2''
        = \<lparr>similarToAssetIds = [''u1'', ''u2''], searchText = ''xSIMILARTO:''\<rparr>"
proof -
  have 1: "equal_ignoring_case ''SIMILARTO:'' ''similarTo:''" by code_simp
  have 2: "'' similarTo:u2'' = [] \<or> is_space (hd '' similarTo:u2'')" by code_simp
  have 3: "''similarTo:u1 '' = [] \<or> is_space (last ''similarTo:u1 '')" by code_simp
  have 4: "\<not> contains_reference (''x'' @ ''SIMILARTO:'')" by code_simp
  have 5: "parseQuery ''similarTo:u1 xSIMILARTO: similarTo:u2''
        = \<lparr>similarToAssetIds = [''u1'', ''u2''], searchText = ''xSIMILARTO:''\<rparr>"
    by code_simp
  from 1 2 3 4 5 bare_similarTo_kept [OF 1 2 3 4] show ?thesis
    by (simp only: simp_thms)
qed

text \<open>
  The proviso is needed: in \<^verbatim>\<open>similarTo:similarTo:\<close> the second occurrence is followed
  by the end of the query, and it is the token of the first; the search text is empty.
\<close>

theorem bare_similarTo_swallowed:
  "equal_ignoring_case ''similarTo:'' ''similarTo:''
   \<and> parseQuery ''similarTo:similarTo:''
        = \<lparr>similarToAssetIds = [''similarTo:''], searchText = ''''\<rparr>"
  by code_simp

end
